theory Spec2Isabelle
  imports Main
begin

section \<open>Strings and errors\<close>

text \<open>
  Go strings are byte sequences; they are modelled as \<open>string\<close> (lists of 8-bit
  characters). Failures of the program and of its collaborators are values of \<open>error\<close>.
\<close>

datatype error =
    EOF
  | ErrBufferFull
  | IndexOutOfRange
  | IOError string
  | ExecError string
  | ServiceError string

abbreviation colon :: char where "colon \<equiv> CHR '':''"
abbreviation space :: char where "space \<equiv> CHR '' ''"
abbreviation newline :: char where "newline \<equiv> CHR 0x0A"
abbreviation carriage_return :: char where "carriage_return \<equiv> CHR 0x0D"

text \<open>\<open>strings.HasPrefix\<close> and \<open>strings.HasSuffix\<close>.\<close>

definition HasPrefix :: "string \<Rightarrow> string \<Rightarrow> bool" where
  "HasPrefix s p = (length p \<le> length s \<and> take (length p) s = p)"

definition HasSuffix :: "string \<Rightarrow> string \<Rightarrow> bool" where
  "HasSuffix s p = (length p \<le> length s \<and> drop (length s - length p) s = p)"

text \<open>
  \<open>strings.Index\<close> and \<open>strings.Split\<close> for a separator of one byte, which is how
  the program calls them. \<open>Split\<close> follows the library's loop: cut at the first
  separator, continue behind it, and end with the rest.
\<close>

fun Index :: "string \<Rightarrow> char \<Rightarrow> nat option" where
  "Index [] sep = None"
| "Index (c # s) sep = (if c = sep then Some 0 else map_option Suc (Index s sep))"

lemma Index_less: "Index s sep = Some m \<Longrightarrow> m < length s"
  by (induction s arbitrary: m) (auto split: if_splits)

function Split :: "string \<Rightarrow> char \<Rightarrow> string list" where
  "Split s sep =
     (case Index s sep of
        None \<Rightarrow> [s]
      | Some m \<Rightarrow> take m s # Split (drop (m + 1) s) sep)"
  by pat_completeness auto
termination
  by (relation "measure (\<lambda>(s, sep). length s)") (auto dest: Index_less)

declare Split.simps [simp del]

section \<open>Reference resolver\<close>

text \<open>
  \<open>getLocalBranch\<close>, lines 97 to 100. Indexing a slice out of range panics in Go; the
  panic is the \<open>Inl\<close> branch.
\<close>

definition getLocalBranch :: "string \<Rightarrow> error + string" where
  "getLocalBranch branchName =
     (let result = Split branchName colon
      in if result = [] then Inl IndexOutOfRange
         else Inr (result ! (length result - 1)))"

section \<open>Regular expressions\<close>

text \<open>
  The program matches two patterns with \<open>regexp.MustCompile\<close>: \<open>^[mg]?vim$\<close> and
  \<open>\S\<close>. A compiled pattern is a syntax tree over bytes together with its two anchors;
  matching is by derivatives. In Go's default (Perl) syntax \<open>^\<close> and \<open>$\<close> stand for
  the beginning and the end of the text, and \<open>MatchString\<close> looks for a match anywhere
  in the text unless an anchor forbids it.
\<close>

datatype regex =
    Emp
  | Cls "char list"
  | NCls "char list"
  | Cat regex regex
  | Alt regex regex
  | Star regex

primrec nullable :: "regex \<Rightarrow> bool" where
  "nullable Emp = True"
| "nullable (Cls cs) = False"
| "nullable (NCls cs) = False"
| "nullable (Cat a b) = (nullable a \<and> nullable b)"
| "nullable (Alt a b) = (nullable a \<or> nullable b)"
| "nullable (Star a) = True"

primrec deriv :: "char \<Rightarrow> regex \<Rightarrow> regex" where
  "deriv c Emp = Cls []"
| "deriv c (Cls cs) = (if c \<in> set cs then Emp else Cls [])"
| "deriv c (NCls cs) = (if c \<in> set cs then Cls [] else Emp)"
| "deriv c (Cat a b) =
     (if nullable a then Alt (Cat (deriv c a) b) (deriv c b) else Cat (deriv c a) b)"
| "deriv c (Alt a b) = Alt (deriv c a) (deriv c b)"
| "deriv c (Star a) = Cat (deriv c a) (Star a)"

primrec accepts :: "regex \<Rightarrow> string \<Rightarrow> bool" where
  "accepts r [] = nullable r"
| "accepts r (c # s) = accepts (deriv c r) s"

record Regexp =
  anchored_begin :: bool
  pattern :: regex
  anchored_end :: bool

abbreviation any_text :: regex where "any_text \<equiv> Star (NCls [])"

definition MatchString :: "Regexp \<Rightarrow> string \<Rightarrow> bool" where
  "MatchString re s =
     accepts
       (Cat (if anchored_begin re then Emp else any_text)
         (Cat (pattern re) (if anchored_end re then Emp else any_text))) s"

text \<open>\<open>regexp.MustCompile("^[mg]?vim$")\<close>, line 106.\<close>

definition vim_regexp :: Regexp where
  "vim_regexp =
     \<lparr>anchored_begin = True,
      pattern = Cat (Alt (Cls ''mg'') Emp) (Cat (Cls ''v'') (Cat (Cls ''i'') (Cls ''m''))),
      anchored_end = True\<rparr>"

text \<open>
  \<open>regexp.MustCompile("\\S")\<close>, line 138. In Go \<open>\s\<close> is the class of tab, line
  feed, form feed, carriage return and space, and \<open>\S\<close> is its complement. Go matches
  code points where this tree matches bytes; for this pattern the two agree, since the
  five bytes of the class stand for themselves wherever they occur in a text, and any
  other byte belongs to a code point (or an invalid byte) outside the class.
\<close>

definition perl_space :: "char list" where
  "perl_space = [CHR 0x09, CHR 0x0A, CHR 0x0C, CHR 0x0D, CHR 0x20]"

definition non_space_regexp :: Regexp where
  "non_space_regexp =
     \<lparr>anchored_begin = False, pattern = NCls perl_space, anchored_end = False\<rparr>"

section \<open>Editor invoker\<close>

text \<open>
  The collaborators behind the package variable \<open>git\<close> are not part of the source file;
  their answers are the fields of a record that the functions take as a parameter.
\<close>

record Git =
  Dir :: string
  Owner :: string
  Repo :: string
  Editor :: string
  CommitLogs :: "string \<Rightarrow> string \<Rightarrow> string"

text \<open>\<open>buildEditCommand\<close>, lines 102 to 114.\<close>

definition buildEditCommand :: "Git \<Rightarrow> string \<Rightarrow> string list" where
  "buildEditCommand git messageFile =
     (let editCmd = [];
          gitEditor = Editor git;
          editCmd = editCmd @ [gitEditor];
          r = vim_regexp;
          editCmd = (if MatchString r gitEditor
                     then (editCmd @ [''-c'']) @ [''set ft=gitcommit'']
                     else editCmd);
          editCmd = editCmd @ [messageFile]
      in editCmd)"

section \<open>Reading lines\<close>

text \<open>
  A \<open>bufio.Reader\<close> is modelled by what its \<open>ReadLine\<close> is going to return: the
  pending pieces of lines, each with the flag \<open>isPrefix\<close> that says the line goes on in
  the next piece. Once the pieces are used up, \<open>ReadLine\<close> returns no data and an
  error. The program never looks at which error it is, so it is always \<open>EOF\<close> here.
\<close>

type_synonym Reader = "(string \<times> bool) list"

fun ReadLine :: "Reader \<Rightarrow> (string \<times> bool \<times> error option) \<times> Reader" where
  "ReadLine [] = (([], False, Some EOF), [])"
| "ReadLine ((line, isPrefix) # r) = ((line, isPrefix, None), r)"

lemma ReadLine_length:
  "ReadLine r = ((line, p, e), r') \<Longrightarrow>
   length r' \<le> length r \<and> (e = None \<longrightarrow> length r' < length r) \<and> (p \<longrightarrow> e = None)"
  by (cases r) auto

text \<open>\<open>readln\<close>, lines 163 to 174: the loop, entered with \<open>isPrefix = true\<close> and \<open>err = nil\<close>.\<close>

function readln_loop ::
  "string \<Rightarrow> bool \<Rightarrow> error option \<Rightarrow> Reader \<Rightarrow> (string \<times> error option) \<times> Reader" where
  "readln_loop ln isPrefix err r =
     (if isPrefix \<and> err = None
      then (case ReadLine r of
              ((line, isPrefix', err'), r') \<Rightarrow> readln_loop (ln @ line) isPrefix' err' r')
      else ((ln, err), r))"
  by pat_completeness auto
termination
  by (relation "measure (\<lambda>(ln, isPrefix, err, r).
        2 * length r + (if isPrefix \<and> err = None then 1 else 0))")
     (auto dest!: ReadLine_length [OF sym])

definition readln :: "Reader \<Rightarrow> (string \<times> error option) \<times> Reader" where
  "readln r = readln_loop [] True None r"

lemma readln_loop_length:
  "readln_loop ln p e r = ((line, err), r') \<Longrightarrow>
   length r' \<le> length r \<and> (p \<and> e = None \<and> err = None \<longrightarrow> length r' < length r)"
proof (induction ln p e r arbitrary: line err r' rule: readln_loop.induct)
  case (1 ln isPrefix e r)
  show ?case
  proof (cases "isPrefix \<and> e = None")
    case False
    with "1.prems" show ?thesis by auto
  next
    case True
    show ?thesis
    proof (cases r)
      case Nil
      with True "1.prems" show ?thesis by auto
    next
      case (Cons x r0)
      obtain l0 p0 where x: "x = (l0, p0)" by (cases x)
      from True Cons x "1.prems"
      have rec: "readln_loop (ln @ l0) p0 None r0 = ((line, err), r')" by simp
      from "1.IH" [OF True _ _ _ rec, of "(l0, p0, None)" "(p0, None)"] Cons x
      show ?thesis by auto
    qed
  qed
qed

lemma readln_length:
  "readln r = ((line, err), r') \<Longrightarrow>
   length r' \<le> length r \<and> (err = None \<longrightarrow> length r' < length r)"
  using readln_loop_length [of "[]" True None r line err r'] by (simp add: readln_def)

declare readln_loop.simps [simp del]

text \<open>A reader that is going to return the given lines, each in one piece.\<close>

definition reader_of_lines :: "string list \<Rightarrow> Reader" where
  "reader_of_lines ls = map (\<lambda>l. (l, False)) ls"

text \<open>
  \<open>bufio.NewReader\<close> on a file gives a reader with a buffer of 4096 bytes. Its state is
  the part of the file not yet read; the file hands over as many bytes as the reader
  asks for. \<open>ReadSlice\<close> with the line feed as delimiter returns the bytes up to and
  with the first line feed when that lies within the buffer; else a full buffer and
  \<open>ErrBufferFull\<close>; else, at the end of the file, what is left and \<open>EOF\<close>.
\<close>

definition defaultBufSize :: nat where
  "defaultBufSize = 4096"

definition ReadSlice :: "string \<Rightarrow> (string \<times> error option) \<times> string" where
  "ReadSlice s =
     (case Index s newline of
        Some i \<Rightarrow>
          if i < defaultBufSize then ((take (i + 1) s, None), drop (i + 1) s)
          else ((take defaultBufSize s, Some ErrBufferFull), drop defaultBufSize s)
      | None \<Rightarrow>
          if defaultBufSize \<le> length s
          then ((take defaultBufSize s, Some ErrBufferFull), drop defaultBufSize s)
          else ((s, Some EOF), []))"

text \<open>
  \<open>bufio.Reader.ReadLine\<close>: a full buffer is the beginning of a line (a carriage
  return at its end is put back, for the line feed that may follow); no data is the
  error; otherwise the line comes without its line feed and without one carriage return
  before the line feed.
\<close>

definition bufio_ReadLine :: "string \<Rightarrow> (string \<times> bool \<times> error option) \<times> string" where
  "bufio_ReadLine s =
     (case ReadSlice s of
        ((line, err), s') \<Rightarrow>
          if err = Some ErrBufferFull
          then (if length line > 0 \<and> line ! (length line - 1) = carriage_return
                then ((take (length line - 1) line, True, None), carriage_return # s')
                else ((line, True, None), s'))
          else if length line = 0 then (([], False, err), s')
          else if line ! (length line - 1) = newline
          then (let drop = (if length line > 1 \<and> line ! (length line - 2) = carriage_return
                            then 2 else 1)
                in ((take (length line - drop) line, False, None), s'))
          else ((line, False, None), s'))"

lemma ReadSlice_length:
  "ReadSlice s = ((line, err), s') \<Longrightarrow>
   length s' \<le> length s \<and>
   (err = None \<longrightarrow> length s' < length s) \<and>
   (err = Some ErrBufferFull \<longrightarrow> length s' + defaultBufSize = length s) \<and>
   (err = Some EOF \<longrightarrow> line = s \<and> s' = []) \<and>
   (err = None \<or> err = Some ErrBufferFull \<or> err = Some EOF)"
  by (auto simp: ReadSlice_def defaultBufSize_def split: option.splits if_splits
      dest: Index_less)

lemma bufio_ReadLine_length:
  "bufio_ReadLine s = ((line, isPrefix, None), s') \<Longrightarrow> length s' < length s"
proof -
  assume h: "bufio_ReadLine s = ((line, isPrefix, None), s')"
  obtain l e t where rs: "ReadSlice s = ((l, e), t)" by (metis prod.exhaust)
  from ReadSlice_length [OF rs] h show ?thesis
    by (cases e) (auto simp: bufio_ReadLine_def rs Let_def defaultBufSize_def
        split: if_splits)
qed

text \<open>The pieces that the reader on a text is going to return.\<close>

function pending :: "string \<Rightarrow> Reader" where
  "pending s =
     (case bufio_ReadLine s of
        ((line, isPrefix, None), s') \<Rightarrow> (line, isPrefix) # pending s'
      | ((line, isPrefix, Some e), s') \<Rightarrow> [])"
  by pat_completeness auto
termination
  by (relation "measure length") (auto dest: bufio_ReadLine_length [OF sym])

declare pending.simps [simp del]

definition NewReader :: "string \<Rightarrow> Reader" where
  "NewReader text = pending text"

section \<open>Trimming and joining\<close>

text \<open>
  \<open>strings.TrimSpace\<close> removes the leading and the trailing white space as
  \<open>unicode.IsSpace\<close> defines it. Go decodes UTF-8 from either end of the text and stops
  at the first code point that is no white space; an invalid byte is no white space.
  On the bytes this removes, one after another, the encodings of the white-space code
  points: the six of ASCII, U+0085, U+00A0, U+1680, U+2000 to U+200A, U+2028, U+2029,
  U+202F, U+205F and U+3000. (U+180E was white space up to Unicode 6.2 and is not in
  the table; the properties below use the six ASCII entries only.)
\<close>

definition space_runes :: "string list" where
  "space_runes =
     [[CHR 0x09], [CHR 0x0A], [CHR 0x0B], [CHR 0x0C], [CHR 0x0D], [CHR 0x20],
      [CHR 0xC2, CHR 0x85], [CHR 0xC2, CHR 0xA0],
      [CHR 0xE1, CHR 0x9A, CHR 0x80],
      [CHR 0xE2, CHR 0x80, CHR 0x80], [CHR 0xE2, CHR 0x80, CHR 0x81],
      [CHR 0xE2, CHR 0x80, CHR 0x82], [CHR 0xE2, CHR 0x80, CHR 0x83],
      [CHR 0xE2, CHR 0x80, CHR 0x84], [CHR 0xE2, CHR 0x80, CHR 0x85],
      [CHR 0xE2, CHR 0x80, CHR 0x86], [CHR 0xE2, CHR 0x80, CHR 0x87],
      [CHR 0xE2, CHR 0x80, CHR 0x88], [CHR 0xE2, CHR 0x80, CHR 0x89],
      [CHR 0xE2, CHR 0x80, CHR 0x8A],
      [CHR 0xE2, CHR 0x80, CHR 0xA8], [CHR 0xE2, CHR 0x80, CHR 0xA9],
      [CHR 0xE2, CHR 0x80, CHR 0xAF], [CHR 0xE2, CHR 0x81, CHR 0x9F],
      [CHR 0xE3, CHR 0x80, CHR 0x80]]"

lemma space_runes_not_Nil: "p \<in> set space_runes \<Longrightarrow> p \<noteq> []"
  by (auto simp: space_runes_def)

lemma find_Some_mem: "find P xs = Some x \<Longrightarrow> P x \<and> x \<in> set xs"
  by (induction xs) (auto split: if_splits)

lemma find_HasPrefix_shorter:
  "find (HasPrefix s) space_runes = Some p \<Longrightarrow> length (drop (length p) s) < length s"
  using space_runes_not_Nil [of p] by (cases s) (auto simp: HasPrefix_def dest!: find_Some_mem)

lemma find_HasSuffix_shorter:
  "find (HasSuffix s) space_runes = Some p \<Longrightarrow> length (take (length s - length p) s) < length s"
  using space_runes_not_Nil [of p] by (cases s) (auto simp: HasSuffix_def dest!: find_Some_mem)

function TrimLeft :: "string \<Rightarrow> string" where
  "TrimLeft s =
     (case find (HasPrefix s) space_runes of
        None \<Rightarrow> s
      | Some p \<Rightarrow> TrimLeft (drop (length p) s))"
  by pat_completeness auto
termination
  by (relation "measure length") (auto dest: find_HasPrefix_shorter)

function TrimRight :: "string \<Rightarrow> string" where
  "TrimRight s =
     (case find (HasSuffix s) space_runes of
        None \<Rightarrow> s
      | Some p \<Rightarrow> TrimRight (take (length s - length p) s))"
  by pat_completeness auto
termination
  by (relation "measure length") (auto dest: find_HasSuffix_shorter)

declare TrimLeft.simps [simp del] TrimRight.simps [simp del]

definition TrimSpace :: "string \<Rightarrow> string" where
  "TrimSpace s = TrimRight (TrimLeft s)"

text \<open>\<open>strings.Join\<close>.\<close>

fun Join :: "string list \<Rightarrow> string \<Rightarrow> string" where
  "Join [] sep = []"
| "Join [a] sep = a"
| "Join (a # b # rest) sep = a @ sep @ Join (b # rest) sep"

section \<open>Title and body parser\<close>

text \<open>
  \<open>readTitleAndBody\<close>, lines 137 to 161. The loop of lines 142 to 152 carries the two
  part lists, the line read last and its error; \<open>break\<close> and the end of the loop both
  leave with the parts gathered so far.
\<close>

function readTitleAndBody_loop ::
  "string list \<Rightarrow> string list \<Rightarrow> string \<Rightarrow> error option \<Rightarrow> Reader
     \<Rightarrow> string list \<times> string list" where
  "readTitleAndBody_loop titleParts bodyParts line err reader =
     (if err = None
      then (if HasPrefix line ''#'' then (titleParts, bodyParts)
            else (case readln reader of
                    ((line', err'), reader') \<Rightarrow>
                      if length bodyParts = 0 \<and> MatchString non_space_regexp line
                      then readTitleAndBody_loop (titleParts @ [line]) bodyParts
                             line' err' reader'
                      else readTitleAndBody_loop titleParts (bodyParts @ [line])
                             line' err' reader'))
      else (titleParts, bodyParts))"
  by pat_completeness auto
termination
  by (relation "measure (\<lambda>(tp, bp, line, err, reader).
        2 * length reader + (if err = None then 1 else 0))")
     (auto dest!: readln_length [OF sym])

declare readTitleAndBody_loop.simps [simp del]

definition readTitleAndBody :: "Reader \<Rightarrow> string \<times> string \<times> error option" where
  "readTitleAndBody reader =
     (case readln reader of
        ((line, err), reader') \<Rightarrow>
          (case readTitleAndBody_loop [] [] line err reader' of
             (titleParts, bodyParts) \<Rightarrow>
               (let title = Join titleParts '' '';
                    title = TrimSpace title;
                    body = Join bodyParts [newline];
                    body = TrimSpace body
                in (title, body, None))))"

section \<open>Draft composer\<close>

text \<open>
  \<open>fmt.Sprintf\<close> for a format whose only verb is \<open>%s\<close>, with string operands: each
  verb is replaced by the next operand, and a verb without operand left prints as
  missing.
\<close>

fun Sprintf :: "string \<Rightarrow> string list \<Rightarrow> string" where
  "Sprintf [] args = []"
| "Sprintf [c] args = [c]"
| "Sprintf (c # d # f) args =
     (if c = CHR ''%'' \<and> d = CHR ''s''
      then (case args of
              [] \<Rightarrow> ''%!s(MISSING)'' @ Sprintf f []
            | a # args' \<Rightarrow> a @ Sprintf f args')
      else c # Sprintf (d # f) args)"

text \<open>The raw string literal of lines 74 to 83.\<close>

definition message_template :: string where
  "message_template =
     [newline] @
     ''# Requesting a pull to %s from %s'' @ [newline] @
     ''#'' @ [newline] @
     ''# Write a message for this pull reuqest. The first block'' @ [newline] @
     ''# of the text is the title and the rest is description.'' @ [newline] @
     ''#'' @ [newline] @
     ''# Changes:'' @ [newline] @
     ''#'' @ [newline] @
     ''%s'' @ [newline]"

text \<open>
  The two patterns of lines 84 and 85 are compiled with \<open>regexp.MustCompilePOSIX\<close>. In
  that syntax \<open>^\<close> and \<open>$\<close> stand for the beginning and the end of a line: \<open>^\<close>
  matches the empty text at the beginning of the text and behind every line feed, and
  \<open> +$\<close> matches a longest run of spaces that ends at a line feed or at the end of the
  text. \<open>ReplaceAllString\<close> replaces every match, from left to right.
\<close>

definition startRegexp_ReplaceAllString :: "string \<Rightarrow> string \<Rightarrow> string" where
  "startRegexp_ReplaceAllString src repl =
     repl @ concat (map (\<lambda>c. if c = newline then c # repl else [c]) src)"

definition at_line_end :: "string \<Rightarrow> bool" where
  "at_line_end s = (case s of [] \<Rightarrow> True | c # _ \<Rightarrow> c = newline)"

function endRegexp_ReplaceAllString :: "string \<Rightarrow> string \<Rightarrow> string" where
  "endRegexp_ReplaceAllString [] repl = []"
| "endRegexp_ReplaceAllString (c # s) repl =
     (if c = space \<and> at_line_end (dropWhile (\<lambda>x. x = space) s)
      then repl @ endRegexp_ReplaceAllString (dropWhile (\<lambda>x. x = space) s) repl
      else c # endRegexp_ReplaceAllString s repl)"
  by pat_completeness auto
termination
  by (relation "measure (\<lambda>(s, repl). length s)")
     (auto simp: less_Suc_eq_le length_dropWhile_le)

text \<open>Lines 88 to 90: the commit log as the draft shows it.\<close>

definition commentCommitLogs :: "string \<Rightarrow> string" where
  "commentCommitLogs commitLogs =
     (let commitLogs = TrimSpace commitLogs;
          commitLogs = startRegexp_ReplaceAllString commitLogs ''# '';
          commitLogs = endRegexp_ReplaceAllString commitLogs []
      in commitLogs)"

text \<open>
  The files of the program's world, and \<open>ioutil.WriteFile\<close>: it replaces the content
  of a file, or fails and leaves the files as they are.
\<close>

record World =
  files :: "string \<rightharpoonup> string"
  writable :: "string \<Rightarrow> bool"

definition WriteFile :: "World \<Rightarrow> string \<Rightarrow> string \<Rightarrow> error option \<times> World" where
  "WriteFile w filename data =
     (if writable w filename
      then (None, w\<lparr>files := (files w)(filename \<mapsto> data)\<rparr>)
      else (Some (IOError filename), w))"

text \<open>
  \<open>writePullRequestChanges\<close>, lines 73 to 95. A panic of \<open>getLocalBranch\<close> is the
  \<open>Inl\<close> branch; otherwise the result is the error of the write and the world after it.
\<close>

definition writePullRequestChanges ::
  "Git \<Rightarrow> World \<Rightarrow> string \<Rightarrow> string \<Rightarrow> string \<Rightarrow> error + (error option \<times> World)" where
  "writePullRequestChanges git w messageFile base head =
     (let message = message_template
      in case getLocalBranch base of
           Inl e \<Rightarrow> Inl e
         | Inr localBase \<Rightarrow>
            (case getLocalBranch head of
               Inl e \<Rightarrow> Inl e
             | Inr localHead \<Rightarrow>
                (let commitLogs = CommitLogs git localBase localHead;
                     commitLogs = commentCommitLogs commitLogs;
                     message = Sprintf message [base, head, commitLogs]
                 in Inr (WriteFile w messageFile message))))"

section \<open>The command\<close>

record PullRequestParams =
  Title :: string
  Body :: string
  Base :: string
  Head :: string

text \<open>
  What the command needs from outside the source file: the \<open>git\<close> collaborators,
  \<open>filepath.Join\<close>, the program that \<open>exec.Command\<close> runs (it may change the files and
  it may fail), and \<open>gh.CreatePullRequest\<close>.
\<close>

record Env =
  git :: Git
  filepath_Join :: "string \<Rightarrow> string \<Rightarrow> string"
  run_command :: "string \<Rightarrow> string list \<Rightarrow> World \<Rightarrow> error option \<times> World"
  CreatePullRequest :: "string \<Rightarrow> string \<Rightarrow> PullRequestParams \<Rightarrow> error option"

text \<open>\<open>execCmd\<close>, lines 116 to 124. \<open>command[0]\<close> panics on an empty command.\<close>

definition execCmd :: "Env \<Rightarrow> string list \<Rightarrow> World \<Rightarrow> error + (error option \<times> World)" where
  "execCmd env command w =
     (if length command = 0 then Inl IndexOutOfRange
      else Inr (run_command env (command ! 0) (drop 1 command) w))"

text \<open>\<open>readTitleAndBodyFromFile\<close>, lines 126 to 135.\<close>

definition readTitleAndBodyFromFile :: "World \<Rightarrow> string \<Rightarrow> string \<times> string \<times> error option" where
  "readTitleAndBodyFromFile w messageFile =
     (case files w messageFile of
        None \<Rightarrow> ([], [], Some (IOError messageFile))
      | Some text \<Rightarrow> readTitleAndBody (NewReader text))"

text \<open>
  How a run of the command ends: it returns, or \<open>log.Fatal\<close> prints its argument and
  exits with status 1, or it panics. A run also records every call of
  \<open>gh.CreatePullRequest\<close> it made.
\<close>

datatype logged = LogError error | LogText string

datatype outcome = Returned | Exit int logged | Panic error

record Run =
  outcome :: outcome
  world :: World
  submitted :: "(string \<times> string \<times> PullRequestParams) list"

definition log_Fatal :: "logged \<Rightarrow> outcome" where
  "log_Fatal v = Exit 1 v"

text \<open>
  \<open>pullRequest\<close>, lines 44 to 71. The two flags \<open>flagPullRequestBase\<close> and
  \<open>flagPullRequestHead\<close> are parameters.
\<close>

definition pullRequest :: "Env \<Rightarrow> string \<Rightarrow> string \<Rightarrow> World \<Rightarrow> Run" where
  "pullRequest env flagPullRequestBase flagPullRequestHead w =
     (let messageFile = filepath_Join env (Dir (git env)) ''PULLREQ_EDITMSG''
      in case writePullRequestChanges (git env) w messageFile
                flagPullRequestBase flagPullRequestHead of
           Inl e \<Rightarrow> \<lparr>outcome = Panic e, world = w, submitted = []\<rparr>
         | Inr (Some err, w1) \<Rightarrow>
             \<lparr>outcome = log_Fatal (LogError err), world = w1, submitted = []\<rparr>
         | Inr (None, w1) \<Rightarrow>
            (let editCmd = buildEditCommand (git env) messageFile
             in case execCmd env editCmd w1 of
                  Inl e \<Rightarrow> \<lparr>outcome = Panic e, world = w1, submitted = []\<rparr>
                | Inr (Some err, w2) \<Rightarrow>
                    \<lparr>outcome = log_Fatal (LogError err), world = w2, submitted = []\<rparr>
                | Inr (None, w2) \<Rightarrow>
                   (case readTitleAndBodyFromFile w2 messageFile of
                      (title, body, Some err) \<Rightarrow>
                        \<lparr>outcome = log_Fatal (LogError err), world = w2, submitted = []\<rparr>
                    | (title, body, None) \<Rightarrow>
                       if length title = 0
                       then \<lparr>outcome =
                               log_Fatal (LogText ''Aborting due to empty pull request title''),
                             world = w2, submitted = []\<rparr>
                       else (let params = \<lparr>Title = title, Body = body,
                                            Base = flagPullRequestBase,
                                            Head = flagPullRequestHead\<rparr>;
                                 call = (Owner (git env), Repo (git env), params)
                             in case CreatePullRequest env (Owner (git env)) (Repo (git env))
                                       params of
                                  Some err \<Rightarrow>
                                    \<lparr>outcome = log_Fatal (LogError err), world = w2,
                                     submitted = [call]\<rparr>
                                | None \<Rightarrow>
                                    \<lparr>outcome = Returned, world = w2,
                                     submitted = [call]\<rparr>))))"

section \<open>Properties of the reference resolver\<close>

lemma Index_None_iff: "Index s sep = None \<longleftrightarrow> sep \<notin> set s"
  by (induction s) auto

lemma Index_append_sep: "sep \<notin> set pre \<Longrightarrow> Index (pre @ sep # suf) sep = Some (length pre)"
  by (induction pre) auto

lemma Split_no_sep: "sep \<notin> set s \<Longrightarrow> Split s sep = [s]"
  by (subst Split.simps) (simp add: Index_None_iff [THEN iffD2])

lemma Split_first_sep: "sep \<notin> set pre \<Longrightarrow> Split (pre @ sep # suf) sep = pre # Split suf sep"
  by (subst Split.simps) (simp add: Index_append_sep)

lemma Split_not_Nil: "Split s sep \<noteq> []"
  by (subst Split.simps) (simp split: option.split)

lemma last_Split_append: "last (Split (pre @ sep # suf) sep) = last (Split suf sep)"
proof (induction pre rule: length_induct)
  case (1 pre)
  show ?case
  proof (cases "sep \<in> set pre")
    case False
    then show ?thesis by (simp add: Split_first_sep Split_not_Nil)
  next
    case True
    then obtain a b where ab: "pre = a @ sep # b" and a: "sep \<notin> set a"
      by (auto dest: split_list_first)
    have "last (Split (pre @ sep # suf) sep) = last (Split (b @ sep # suf) sep)"
      using a Split_first_sep [of sep a "b @ sep # suf"] by (simp add: ab Split_not_Nil)
    also have "\<dots> = last (Split suf sep)"
      using 1 by (simp add: ab)
    finally show ?thesis .
  qed
qed

lemma getLocalBranch_last: "getLocalBranch s = Inr (last (Split s colon))"
  by (simp add: getLocalBranch_def Let_def Split_not_Nil last_conv_nth)

text \<open>
  C5. A branch reference with one or more colons resolves to exactly the text behind
  the final colon, a reference without a colon resolves to itself, and the resolver has
  no failure mode: on every input it returns a branch name.
\<close>

theorem getLocalBranch_after_final_colon:
  "(colon \<notin> set suf \<longrightarrow> getLocalBranch (pre @ colon # suf) = Inr suf) \<and>
   (colon \<notin> set s \<longrightarrow> getLocalBranch s = Inr s) \<and>
   (\<exists>r. getLocalBranch s = Inr r)"
  by (simp add: getLocalBranch_last last_Split_append Split_no_sep)

theorem getLocalBranch_after_final_colon_witness:
  "getLocalBranch ''owner/repo:topic'' = Inr ''topic'' \<and>
   getLocalBranch ''topic'' = Inr ''topic''"
  using getLocalBranch_after_final_colon [of "''topic''" "''owner/repo''" "''topic''"]
  by simp

text \<open>
  C10. A branch reference that ends in a colon resolves to the empty branch name: the
  resolver neither fails nor passes the input through.
\<close>

theorem getLocalBranch_trailing_colon: "getLocalBranch (s @ [colon]) = Inr []"
  by (simp add: getLocalBranch_last last_Split_append Split_no_sep)

section \<open>Properties of the matcher\<close>

text \<open>What a pattern matches, as an inductive relation, and the matcher's agreement with it.\<close>

inductive matches :: "regex \<Rightarrow> string \<Rightarrow> bool" where
  m_Emp: "matches Emp []"
| m_Cls: "c \<in> set cs \<Longrightarrow> matches (Cls cs) [c]"
| m_NCls: "c \<notin> set cs \<Longrightarrow> matches (NCls cs) [c]"
| m_Cat: "matches a s \<Longrightarrow> matches b t \<Longrightarrow> matches (Cat a b) (s @ t)"
| m_AltL: "matches a s \<Longrightarrow> matches (Alt a b) s"
| m_AltR: "matches b s \<Longrightarrow> matches (Alt a b) s"
| m_Star0: "matches (Star a) []"
| m_Star1: "matches a s \<Longrightarrow> matches (Star a) t \<Longrightarrow> matches (Star a) (s @ t)"

inductive_cases m_EmpE [elim!]: "matches Emp s"
inductive_cases m_ClsE [elim!]: "matches (Cls cs) s"
inductive_cases m_NClsE [elim!]: "matches (NCls cs) s"
inductive_cases m_CatE [elim!]: "matches (Cat a b) s"
inductive_cases m_AltE [elim!]: "matches (Alt a b) s"

lemma nullable_matches: "nullable r \<longleftrightarrow> matches r []"
  using m_Cat [of _ "[]" _ "[]"] by (induction r) (auto intro: matches.intros)

lemma star_cons:
  "matches r s \<Longrightarrow> r = Star a \<Longrightarrow> s = c # t \<Longrightarrow>
   \<exists>u v. t = u @ v \<and> matches a (c # u) \<and> matches (Star a) v"
proof (induction arbitrary: t rule: matches.induct)
  case (m_Star1 a' s1 t1)
  then show ?case by (cases s1) auto
qed auto

lemma deriv_matches: "matches (deriv c r) s \<longleftrightarrow> matches r (c # s)"
proof (induction r arbitrary: s)
  case (Cat a b)
  show ?case
  proof
    assume "matches (deriv c (Cat a b)) s"
    then show "matches (Cat a b) (c # s)"
      using Cat m_Cat [of a "[]" b "c # s"] m_Cat [of a "c # u" b v for u v]
      by (auto simp: nullable_matches split: if_splits)
  next
    assume "matches (Cat a b) (c # s)"
    then obtain u v where uv: "c # s = u @ v" "matches a u" "matches b v" by auto
    show "matches (deriv c (Cat a b)) s"
    proof (cases u)
      case Nil
      with uv Cat show ?thesis by (auto simp: nullable_matches intro: matches.intros)
    next
      case (Cons x u')
      with uv Cat show ?thesis by (auto intro: matches.intros)
    qed
  qed
next
  case (Star a)
  show ?case
  proof
    assume "matches (deriv c (Star a)) s"
    then show "matches (Star a) (c # s)"
      using Star m_Star1 [of a "c # u" v for u v] by auto
  next
    assume "matches (Star a) (c # s)"
    from star_cons [OF this refl refl] Star show "matches (deriv c (Star a)) s"
      by (auto intro: matches.intros)
  qed
qed (auto intro: matches.intros)

lemma accepts_matches: "accepts r s \<longleftrightarrow> matches r s"
  by (induction s arbitrary: r) (simp_all add: nullable_matches deriv_matches)

lemma matches_any_text: "matches any_text s"
proof (induction s)
  case Nil
  show ?case by (rule m_Star0)
next
  case (Cons c s)
  have "matches (NCls []) [c]" by (simp add: m_NCls)
  from m_Star1 [OF this Cons] show ?case by simp
qed

lemma MatchString_vim:
  "MatchString vim_regexp s \<longleftrightarrow> s = ''vim'' \<or> s = ''gvim'' \<or> s = ''mvim''"
proof
  assume "MatchString vim_regexp s"
  then show "s = ''vim'' \<or> s = ''gvim'' \<or> s = ''mvim''"
    by (auto simp: MatchString_def vim_regexp_def accepts_matches)
next
  assume "s = ''vim'' \<or> s = ''gvim'' \<or> s = ''mvim''"
  then show "MatchString vim_regexp s"
    by (auto simp: MatchString_def vim_regexp_def)
qed

lemma MatchString_non_space:
  "MatchString non_space_regexp s \<longleftrightarrow> (\<exists>c \<in> set s. c \<notin> set perl_space)"
proof
  assume "MatchString non_space_regexp s"
  then show "\<exists>c \<in> set s. c \<notin> set perl_space"
    by (auto simp: MatchString_def non_space_regexp_def accepts_matches)
next
  assume "\<exists>c \<in> set s. c \<notin> set perl_space"
  then obtain u c v where s: "s = u @ c # v" and c: "c \<notin> set perl_space"
    by (auto dest: split_list)
  have "matches (Cat (NCls perl_space) any_text) ([c] @ v)"
    by (intro m_Cat m_NCls c matches_any_text)
  with m_Cat [OF matches_any_text [of u] this] show "MatchString non_space_regexp s"
    by (simp add: MatchString_def non_space_regexp_def accepts_matches s)
qed

section \<open>Properties of the editor invoker\<close>

text \<open>
  C8. The editor command is the editor, the two tokens \<open>-c\<close> and \<open>set ft=gitcommit\<close>,
  and the scratch file exactly when the editor's name is \<open>vim\<close>, \<open>gvim\<close> or \<open>mvim\<close>;
  otherwise it is the editor and the scratch file. The scratch file is always the last
  argument.
\<close>

theorem buildEditCommand_argv:
  "buildEditCommand g path =
     (if Editor g = ''vim'' \<or> Editor g = ''gvim'' \<or> Editor g = ''mvim''
      then [Editor g, ''-c'', ''set ft=gitcommit'', path]
      else [Editor g, path]) \<and>
   last (buildEditCommand g path) = path"
  by (simp add: buildEditCommand_def MatchString_vim)

theorem buildEditCommand_argv_witness:
  "buildEditCommand \<lparr>Dir = ''.git'', Owner = ''o'', Repo = ''r'', Editor = ''vim'',
      CommitLogs = (\<lambda>b h. [])\<rparr> ''PULLREQ_EDITMSG''
     = [''vim'', ''-c'', ''set ft=gitcommit'', ''PULLREQ_EDITMSG''] \<and>
   buildEditCommand \<lparr>Dir = ''.git'', Owner = ''o'', Repo = ''r'', Editor = ''nano'',
      CommitLogs = (\<lambda>b h. [])\<rparr> ''PULLREQ_EDITMSG''
     = [''nano'', ''PULLREQ_EDITMSG'']"
  using
    buildEditCommand_argv [of "\<lparr>Dir = ''.git'', Owner = ''o'', Repo = ''r'', Editor = ''vim'',
      CommitLogs = (\<lambda>b h. [])\<rparr>" "''PULLREQ_EDITMSG''"]
    buildEditCommand_argv [of "\<lparr>Dir = ''.git'', Owner = ''o'', Repo = ''r'', Editor = ''nano'',
      CommitLogs = (\<lambda>b h. [])\<rparr>" "''PULLREQ_EDITMSG''"]
  by simp

section \<open>Properties of the parser\<close>

lemma readln_Nil: "readln [] = (([], Some EOF), [])"
  by (simp add: readln_def readln_loop.simps)

lemma readln_reader_of_lines:
  "readln (reader_of_lines (l # ls)) = ((l, None), reader_of_lines ls)"
  by (simp add: readln_def reader_of_lines_def readln_loop.simps)

text \<open>The loop of the parser on lines that come in one piece each, as a function of the lines.\<close>

fun gather :: "string list \<Rightarrow> string list \<Rightarrow> string list \<Rightarrow> string list \<times> string list" where
  "gather tp bp [] = (tp, bp)"
| "gather tp bp (l # ls) =
     (if HasPrefix l ''#'' then (tp, bp)
      else if bp = [] \<and> MatchString non_space_regexp l then gather (tp @ [l]) bp ls
      else gather tp (bp @ [l]) ls)"

lemma loop_error: "readTitleAndBody_loop tp bp line (Some e) r = (tp, bp)"
  by (simp add: readTitleAndBody_loop.simps)

lemma loop_gather:
  "readTitleAndBody_loop tp bp l None (reader_of_lines ls) = gather tp bp (l # ls)"
proof (induction ls arbitrary: tp bp l)
  case Nil
  show ?case
    by (subst readTitleAndBody_loop.simps)
       (simp add: reader_of_lines_def readln_Nil loop_error)
next
  case (Cons l' ls)
  show ?case
    by (subst readTitleAndBody_loop.simps)
       (simp add: readln_reader_of_lines Cons del: gather.simps(2), simp)
qed

lemma readTitleAndBody_gather:
  "readTitleAndBody (reader_of_lines ls) =
     (TrimSpace (Join (fst (gather [] [] ls)) '' ''),
      TrimSpace (Join (snd (gather [] [] ls)) [newline]), None)"
proof (cases ls)
  case Nil
  then show ?thesis
    by (simp add: readTitleAndBody_def reader_of_lines_def readln_Nil loop_error)
next
  case (Cons l ls')
  then show ?thesis
    by (simp add: readTitleAndBody_def readln_reader_of_lines loop_gather
        split: prod.split del: gather.simps(2))
qed

lemma gather_takeWhile:
  "gather tp bp (takeWhile (\<lambda>l. \<not> HasPrefix l ''#'') ls) = gather tp bp ls"
  by (induction ls arbitrary: tp bp) auto

text \<open>
  C9. The parser has no failure mode: whatever the reader is going to return, the error
  component of the parser's result is nil.
\<close>

theorem readTitleAndBody_no_error: "snd (snd (readTitleAndBody reader)) = None"
  by (simp add: readTitleAndBody_def split: prod.split)

text \<open>
  C4. The title and the body depend only on the lines before the first line that starts
  with \<open>#\<close>: two line sequences that agree up to their first comment line parse to
  the same result, whatever follows the comment line.
\<close>

theorem readTitleAndBody_prefix_before_comment:
  "takeWhile (\<lambda>l. \<not> HasPrefix l ''#'') ls = takeWhile (\<lambda>l. \<not> HasPrefix l ''#'') ls' \<Longrightarrow>
   readTitleAndBody (reader_of_lines ls) = readTitleAndBody (reader_of_lines ls')"
  using gather_takeWhile [of "[]" "[]" ls] gather_takeWhile [of "[]" "[]" ls']
  by (simp add: readTitleAndBody_gather)

theorem readTitleAndBody_prefix_before_comment_witness:
  "readTitleAndBody (reader_of_lines [''Title'', ''# comment'', ''more text'']) =
   readTitleAndBody (reader_of_lines [''Title'', ''#''])"
  using readTitleAndBody_prefix_before_comment
    [of "[''Title'', ''# comment'', ''more text'']" "[''Title'', ''#'']"]
  by (simp add: HasPrefix_def)

text \<open>
  C6. The two drafts of the specification: a title, a blank line, two body lines and a
  comment; and two title lines, a blank line and a body line.
\<close>

theorem readTitleAndBody_examples:
  "readTitleAndBody (NewReader (''Fix bug'' @ [newline, newline] @ ''Details here'' @
      [newline] @ ''more details'' @ [newline] @ ''# ignored''))
     = (''Fix bug'', ''Details here'' @ [newline] @ ''more details'', None) \<and>
   readTitleAndBody (NewReader (''Line one'' @ [newline] @ ''Line two'' @
      [newline, newline] @ ''Body line''))
     = (''Line one Line two'', ''Body line'', None)"
  by code_simp

section \<open>Properties of the draft composer\<close>

text \<open>A function of the text that commutes with cutting the text into lines.\<close>

lemma Split_map_lines:
  assumes step: "\<And>l rest. sep \<notin> set l \<Longrightarrow> f (l @ sep # rest) = h l @ sep # f rest"
    and last: "\<And>l. sep \<notin> set l \<Longrightarrow> f l = h l"
    and keep: "\<And>l. sep \<notin> set l \<Longrightarrow> sep \<notin> set (h l)"
  shows "Split (f s) sep = map h (Split s sep)"
proof (induction s rule: length_induct)
  case (1 s)
  show ?case
  proof (cases "sep \<in> set s")
    case False
    then show ?thesis by (simp add: last keep Split_no_sep)
  next
    case True
    then obtain l rest where s: "s = l @ sep # rest" and l: "sep \<notin> set l"
      by (auto dest: split_list_first)
    from 1 have "Split (f rest) sep = map h (Split rest sep)" by (simp add: s)
    with l show ?thesis by (simp add: s step keep Split_first_sep)
  qed
qed

text \<open>A line without the spaces at its end.\<close>

fun strip_spaces :: "string \<Rightarrow> string" where
  "strip_spaces [] = []"
| "strip_spaces (c # l) =
     (if c = space \<and> strip_spaces l = [] then [] else c # strip_spaces l)"

lemma set_strip_spaces: "set (strip_spaces l) \<subseteq> set l"
  by (induction l) auto

lemma last_strip_spaces: "strip_spaces l \<noteq> [] \<Longrightarrow> last (strip_spaces l) \<noteq> space"
  by (induction l) auto

lemma at_line_end_line:
  "newline \<notin> set l \<Longrightarrow>
   at_line_end (dropWhile (\<lambda>x. x = space) (l @ newline # rest)) \<longleftrightarrow> strip_spaces l = []"
  by (induction l) (auto simp: at_line_end_def)

lemma at_line_end_last_line:
  "newline \<notin> set l \<Longrightarrow>
   at_line_end (dropWhile (\<lambda>x. x = space) l) \<longleftrightarrow> strip_spaces l = []"
  by (induction l) (auto simp: at_line_end_def)

lemma strip_spaces_Nil_iff: "strip_spaces l = [] \<longleftrightarrow> (\<forall>x \<in> set l. x = space)"
  by (induction l) simp_all

lemma dropWhile_spaces_line:
  "strip_spaces l = [] \<Longrightarrow>
   dropWhile (\<lambda>x. x = space) (l @ newline # rest) = newline # rest"
  by (simp add: strip_spaces_Nil_iff dropWhile_append1 dropWhile_append2)

lemma dropWhile_spaces_last_line:
  "strip_spaces l = [] \<Longrightarrow> dropWhile (\<lambda>x. x = space) l = []"
  by (simp add: strip_spaces_Nil_iff)

lemma endRegexp_strip:
  "at_line_end (dropWhile (\<lambda>x. x = space) s) \<Longrightarrow>
   endRegexp_ReplaceAllString (space # s) repl =
     repl @ endRegexp_ReplaceAllString (dropWhile (\<lambda>x. x = space) s) repl"
  by simp

lemma endRegexp_keep:
  "\<not> (c = space \<and> at_line_end (dropWhile (\<lambda>x. x = space) s)) \<Longrightarrow>
   endRegexp_ReplaceAllString (c # s) repl = c # endRegexp_ReplaceAllString s repl"
  by auto

declare endRegexp_ReplaceAllString.simps(2) [simp del]

lemma endRegexp_line:
  "newline \<notin> set l \<Longrightarrow>
   endRegexp_ReplaceAllString (l @ newline # rest) [] =
     strip_spaces l @ newline # endRegexp_ReplaceAllString rest []"
proof (induction l)
  case Nil
  show ?case by (simp add: endRegexp_keep)
next
  case (Cons c l)
  then have nl: "newline \<notin> set l" and IH:
    "endRegexp_ReplaceAllString (l @ newline # rest) [] =
       strip_spaces l @ newline # endRegexp_ReplaceAllString rest []" by simp_all
  show ?case
  proof (cases "c = space \<and> strip_spaces l = []")
    case True
    then have "at_line_end (dropWhile (\<lambda>x. x = space) (l @ newline # rest))"
      by (simp add: at_line_end_line [OF nl])
    from endRegexp_strip [OF this, of "[]"] True show ?thesis
      by (simp add: dropWhile_spaces_line endRegexp_keep)
  next
    case False
    then have "\<not> (c = space \<and> at_line_end (dropWhile (\<lambda>x. x = space) (l @ newline # rest)))"
      by (simp add: at_line_end_line [OF nl])
    from endRegexp_keep [OF this, of "[]"] False IH show ?thesis
      by auto
  qed
qed

lemma endRegexp_last_line:
  "newline \<notin> set l \<Longrightarrow> endRegexp_ReplaceAllString l [] = strip_spaces l"
proof (induction l)
  case Nil
  show ?case by simp
next
  case (Cons c l)
  then have nl: "newline \<notin> set l"
    and IH: "endRegexp_ReplaceAllString l [] = strip_spaces l" by simp_all
  show ?case
  proof (cases "c = space \<and> strip_spaces l = []")
    case True
    then have "at_line_end (dropWhile (\<lambda>x. x = space) l)"
      by (simp add: at_line_end_last_line [OF nl])
    from endRegexp_strip [OF this, of "[]"] True show ?thesis
      by (simp add: dropWhile_spaces_last_line)
  next
    case False
    then have "\<not> (c = space \<and> at_line_end (dropWhile (\<lambda>x. x = space) l))"
      by (simp add: at_line_end_last_line [OF nl])
    from endRegexp_keep [OF this, of "[]"] False IH show ?thesis
      by auto
  qed
qed

lemma Split_endRegexp:
  "Split (endRegexp_ReplaceAllString s []) newline = map strip_spaces (Split s newline)"
proof (rule Split_map_lines)
  fix l :: string
  assume "newline \<notin> set l"
  then show "newline \<notin> set (strip_spaces l)" using set_strip_spaces [of l] by auto
next
  fix l rest :: string
  assume "newline \<notin> set l"
  then show "endRegexp_ReplaceAllString (l @ newline # rest) [] =
     strip_spaces l @ newline # endRegexp_ReplaceAllString rest []"
    by (rule endRegexp_line)
next
  fix l :: string
  assume "newline \<notin> set l"
  then show "endRegexp_ReplaceAllString l [] = strip_spaces l"
    by (rule endRegexp_last_line)
qed

lemma concat_no_newline:
  "newline \<notin> set l \<Longrightarrow> concat (map (\<lambda>c. if c = newline then c # repl else [c]) l) = l"
  by (induction l) auto

lemma startRegexp_line:
  "newline \<notin> set l \<Longrightarrow>
   startRegexp_ReplaceAllString (l @ newline # rest) repl =
     (repl @ l) @ newline # startRegexp_ReplaceAllString rest repl"
  by (simp add: startRegexp_ReplaceAllString_def concat_no_newline)

lemma startRegexp_last_line:
  "newline \<notin> set l \<Longrightarrow> startRegexp_ReplaceAllString l repl = repl @ l"
  by (simp add: startRegexp_ReplaceAllString_def concat_no_newline)

lemma Split_startRegexp:
  assumes "newline \<notin> set repl"
  shows "Split (startRegexp_ReplaceAllString s repl) newline =
     map (\<lambda>l. repl @ l) (Split s newline)"
proof (rule Split_map_lines)
  fix l :: string
  assume "newline \<notin> set l"
  with assms show "newline \<notin> set (repl @ l)" by simp
next
  fix l rest :: string
  assume "newline \<notin> set l"
  then show "startRegexp_ReplaceAllString (l @ newline # rest) repl =
     (repl @ l) @ newline # startRegexp_ReplaceAllString rest repl"
    by (rule startRegexp_line)
next
  fix l :: string
  assume "newline \<notin> set l"
  then show "startRegexp_ReplaceAllString l repl = repl @ l"
    by (rule startRegexp_last_line)
qed

lemma Split_commentCommitLogs:
  "Split (commentCommitLogs logs) newline =
     map (\<lambda>l. strip_spaces (''# '' @ l)) (Split (TrimSpace logs) newline)"
  by (simp add: commentCommitLogs_def Split_endRegexp Split_startRegexp comp_def
      del: strip_spaces.simps)

lemma HasSuffix_single: "HasSuffix s [c] \<longleftrightarrow> s \<noteq> [] \<and> last s = c"
proof (cases s rule: rev_cases)
  case Nil
  then show ?thesis by (simp add: HasSuffix_def)
next
  case (snoc ys y)
  then show ?thesis by (simp add: HasSuffix_def)
qed

lemma strip_comment_line:
  "strip_spaces (''# '' @ l) =
     (if strip_spaces l = [] then ''#'' else ''# '' @ strip_spaces l)"
  by simp

lemma comment_line_shape:
  "(strip_spaces (''# '' @ l) = ''#'' \<or> HasPrefix (strip_spaces (''# '' @ l)) ''# '') \<and>
   \<not> HasSuffix (strip_spaces (''# '' @ l)) '' ''"
  using last_strip_spaces [of l]
  by (simp only: strip_comment_line HasSuffix_single) (simp add: HasPrefix_def)

text \<open>
  The draft up to the commit log, for a base and a head, and the draft that
  \<open>writePullRequestChanges\<close> leaves in the scratch file when the write succeeds.
\<close>

definition draft_header :: "string \<Rightarrow> string \<Rightarrow> string" where
  "draft_header base head =
     [newline] @
     ''# Requesting a pull to '' @ base @ '' from '' @ head @ [newline] @
     ''#'' @ [newline] @
     ''# Write a message for this pull reuqest. The first block'' @ [newline] @
     ''# of the text is the title and the rest is description.'' @ [newline] @
     ''#'' @ [newline] @
     ''# Changes:'' @ [newline] @
     ''#'' @ [newline]"

definition draft_written :: "Git \<Rightarrow> World \<Rightarrow> string \<Rightarrow> string \<Rightarrow> string \<Rightarrow> string option" where
  "draft_written g w messageFile base head =
     (case writePullRequestChanges g w messageFile base head of
        Inr (None, w') \<Rightarrow> files w' messageFile
      | _ \<Rightarrow> None)"

lemma Sprintf_message_template:
  "Sprintf message_template [base, head, logs] = draft_header base head @ logs @ [newline]"
  by (simp add: message_template_def draft_header_def)

lemma draft_written_text:
  "writable w messageFile \<Longrightarrow>
   draft_written g w messageFile base head =
     Some (draft_header base head @
       commentCommitLogs (CommitLogs g (last (Split base colon)) (last (Split head colon))) @
       [newline])"
  by (simp add: draft_written_def writePullRequestChanges_def getLocalBranch_last
      Sprintf_message_template WriteFile_def)

text \<open>
  C1, as amended. The draft is the header, the log section and a line feed. Every line
  of the log section is a comment line: it is \<open>#\<close> alone (a blank line of the log,
  or an empty log) or it starts with \<open>#\<close> and a space, and no line ends with a
  space.
\<close>

theorem draft_log_section_comment_lines:
  "writable w messageFile \<Longrightarrow>
   \<exists>logs. draft_written g w messageFile base head
             = Some (draft_header base head @ logs @ [newline]) \<and>
     (\<forall>l \<in> set (Split logs newline).
        (l = ''#'' \<or> HasPrefix l ''# '') \<and> \<not> HasSuffix l '' '')"
  using comment_line_shape
  by (auto simp: draft_written_text Split_commentCommitLogs simp del: strip_spaces.simps)

theorem draft_log_section_comment_lines_witness:
  "\<exists>logs. draft_written
       \<lparr>Dir = ''.git'', Owner = ''owner'', Repo = ''repo'', Editor = ''vim'',
        CommitLogs = (\<lambda>b h. ''1234567 Fix bug  '' @ [newline, newline] @ ''89abcde Add test'')\<rparr>
       \<lparr>files = Map.empty, writable = (\<lambda>f. True)\<rparr> ''PULLREQ_EDITMSG''
       ''owner:master'' ''owner:topic''
     = Some (draft_header ''owner:master'' ''owner:topic'' @ logs @ [newline]) \<and>
     list_all (\<lambda>l. (l = ''#'' \<or> HasPrefix l ''# '') \<and> \<not> HasSuffix l '' '')
       (Split logs newline)"
  using draft_log_section_comment_lines
    [of "\<lparr>files = Map.empty, writable = (\<lambda>f. True)\<rparr>" "''PULLREQ_EDITMSG''"
        "\<lparr>Dir = ''.git'', Owner = ''owner'', Repo = ''repo'', Editor = ''vim'',
        CommitLogs = (\<lambda>b h. ''1234567 Fix bug  '' @ [newline, newline] @ ''89abcde Add test'')\<rparr>"
        "''owner:master''" "''owner:topic''"]
  by (simp add: list_all_iff)

text \<open>
  C1 as stated fails on a log with a blank line inside, and on the empty log: the blank
  line becomes the comment line \<open>#\<close>, which does not start with \<open>#\<close> and a
  space.
\<close>

theorem draft_log_section_blank_line_counterexample:
  "draft_written
       \<lparr>Dir = ''.git'', Owner = ''owner'', Repo = ''repo'', Editor = ''vim'',
        CommitLogs = (\<lambda>b h. ''1234567 Fix bug'' @ [newline, newline] @ ''89abcde Add test'')\<rparr>
       \<lparr>files = Map.empty, writable = (\<lambda>f. True)\<rparr> ''PULLREQ_EDITMSG''
       ''owner:master'' ''owner:topic''
     = Some (draft_header ''owner:master'' ''owner:topic'' @
        (''# 1234567 Fix bug'' @ [newline] @ ''#'' @ [newline] @ ''# 89abcde Add test'') @
        [newline]) \<and>
   Split (''# 1234567 Fix bug'' @ [newline] @ ''#'' @ [newline] @ ''# 89abcde Add test'') newline
     = [''# 1234567 Fix bug'', ''#'', ''# 89abcde Add test''] \<and>
   draft_written
       \<lparr>Dir = ''.git'', Owner = ''owner'', Repo = ''repo'', Editor = ''vim'',
        CommitLogs = (\<lambda>b h. [])\<rparr>
       \<lparr>files = Map.empty, writable = (\<lambda>f. True)\<rparr> ''PULLREQ_EDITMSG''
       ''owner:master'' ''owner:topic''
     = Some (draft_header ''owner:master'' ''owner:topic'' @ ''#'' @ [newline]) \<and>
   \<not> HasPrefix ''#'' ''# ''"
  by code_simp

text \<open>
  C2. The draft begins with a blank line and the header comment that names base and
  head. Its instruction line reads \<open>pull reuqest\<close>, as the literal of line 77 spells
  it, where the scratch-file format has \<open>pull request\<close>.
\<close>

theorem draft_instruction_line:
  "map_option (\<lambda>text. Split text newline)
     (draft_written
       \<lparr>Dir = ''.git'', Owner = ''owner'', Repo = ''repo'', Editor = ''vim'',
        CommitLogs = (\<lambda>b h. ''1234567 Fix bug'')\<rparr>
       \<lparr>files = Map.empty, writable = (\<lambda>f. True)\<rparr> ''PULLREQ_EDITMSG''
       ''owner:master'' ''owner:topic'')
     = Some
        ['''',
         ''# Requesting a pull to owner:master from owner:topic'',
         ''#'',
         ''# Write a message for this pull reuqest. The first block'',
         ''# of the text is the title and the rest is description.'',
         ''#'',
         ''# Changes:'',
         ''#'',
         ''# 1234567 Fix bug'',
         '''']"
  by code_simp

section \<open>Properties of the command\<close>

text \<open>
  The title that a run of the command parses from the edited draft, when the run gets
  that far: the draft was written, the editor ended without error and the file was read.
\<close>

definition parsed_title :: "Env \<Rightarrow> string \<Rightarrow> string \<Rightarrow> World \<Rightarrow> string option" where
  "parsed_title env base head w =
     (let messageFile = filepath_Join env (Dir (git env)) ''PULLREQ_EDITMSG''
      in case writePullRequestChanges (git env) w messageFile base head of
           Inr (None, w1) \<Rightarrow>
             (case execCmd env (buildEditCommand (git env) messageFile) w1 of
                Inr (None, w2) \<Rightarrow>
                  (case readTitleAndBodyFromFile w2 messageFile of
                     (title, body, None) \<Rightarrow> Some title
                   | _ \<Rightarrow> None)
              | _ \<Rightarrow> None)
         | _ \<Rightarrow> None)"

text \<open>
  C7. When the parsed title is empty the command ends in \<open>log.Fatal\<close>, with exit
  status 1, before any call of \<open>gh.CreatePullRequest\<close>; and no run ever calls
  \<open>gh.CreatePullRequest\<close> with an empty title.
\<close>

theorem pullRequest_empty_title_fatal:
  "(parsed_title env base head w = Some [] \<longrightarrow>
      outcome (pullRequest env base head w)
        = Exit 1 (LogText ''Aborting due to empty pull request title'') \<and>
      submitted (pullRequest env base head w) = []) \<and>
   (\<forall>c \<in> set (submitted (pullRequest env base head w)). Title (snd (snd c)) \<noteq> [])"
  by (simp add: pullRequest_def parsed_title_def log_Fatal_def Let_def
      split: sum.split prod.split option.split)

theorem pullRequest_empty_title_fatal_witness:
  "parsed_title
      \<lparr>git = \<lparr>Dir = ''.git'', Owner = ''owner'', Repo = ''repo'', Editor = ''vim'',
               CommitLogs = (\<lambda>b h. ''1234567 Fix bug'')\<rparr>,
       filepath_Join = (\<lambda>d f. d @ ''/'' @ f),
       run_command = (\<lambda>name args w. (None, w)),
       CreatePullRequest = (\<lambda>owner repo params. None)\<rparr>
      ''owner:master'' ''owner:topic'' \<lparr>files = Map.empty, writable = (\<lambda>f. True)\<rparr>
     = Some [] \<and>
   outcome (pullRequest
      \<lparr>git = \<lparr>Dir = ''.git'', Owner = ''owner'', Repo = ''repo'', Editor = ''vim'',
               CommitLogs = (\<lambda>b h. ''1234567 Fix bug'')\<rparr>,
       filepath_Join = (\<lambda>d f. d @ ''/'' @ f),
       run_command = (\<lambda>name args w. (None, w)),
       CreatePullRequest = (\<lambda>owner repo params. None)\<rparr>
      ''owner:master'' ''owner:topic'' \<lparr>files = Map.empty, writable = (\<lambda>f. True)\<rparr>)
     = Exit 1 (LogText ''Aborting due to empty pull request title'') \<and>
   submitted (pullRequest
      \<lparr>git = \<lparr>Dir = ''.git'', Owner = ''owner'', Repo = ''repo'', Editor = ''vim'',
               CommitLogs = (\<lambda>b h. ''1234567 Fix bug'')\<rparr>,
       filepath_Join = (\<lambda>d f. d @ ''/'' @ f),
       run_command = (\<lambda>name args w. (None, w)),
       CreatePullRequest = (\<lambda>owner repo params. None)\<rparr>
      ''owner:master'' ''owner:topic'' \<lparr>files = Map.empty, writable = (\<lambda>f. True)\<rparr>)
     = []"
proof -
  have "parsed_title
      \<lparr>git = \<lparr>Dir = ''.git'', Owner = ''owner'', Repo = ''repo'', Editor = ''vim'',
               CommitLogs = (\<lambda>b h. ''1234567 Fix bug'')\<rparr>,
       filepath_Join = (\<lambda>d f. d @ ''/'' @ f),
       run_command = (\<lambda>name args w. (None, w)),
       CreatePullRequest = (\<lambda>owner repo params. None)\<rparr>
      ''owner:master'' ''owner:topic'' \<lparr>files = Map.empty, writable = (\<lambda>f. True)\<rparr>
     = Some []"
    by code_simp
  with pullRequest_empty_title_fatal show ?thesis by blast
qed

section \<open>Properties of trimming\<close>

text \<open>A text is trimmed when no white-space code point begins it and none ends it.\<close>

definition no_leading_space :: "string \<Rightarrow> bool" where
  "no_leading_space s = (find (HasPrefix s) space_runes = None)"

definition no_trailing_space :: "string \<Rightarrow> bool" where
  "no_trailing_space s = (find (HasSuffix s) space_runes = None)"

lemma TrimLeft_id: "no_leading_space s \<Longrightarrow> TrimLeft s = s"
  by (subst TrimLeft.simps) (simp add: no_leading_space_def)

lemma TrimRight_id: "no_trailing_space s \<Longrightarrow> TrimRight s = s"
  by (subst TrimRight.simps) (simp add: no_trailing_space_def)

lemma no_leading_space_TrimLeft: "no_leading_space (TrimLeft s)"
proof (induction s rule: TrimLeft.induct)
  case (1 s)
  show ?case
  proof (cases "find (HasPrefix s) space_runes")
    case None
    then show ?thesis by (subst TrimLeft.simps) (simp add: no_leading_space_def)
  next
    case (Some p)
    with 1 show ?thesis by (subst TrimLeft.simps) simp
  qed
qed

lemma no_trailing_space_TrimRight: "no_trailing_space (TrimRight s)"
proof (induction s rule: TrimRight.induct)
  case (1 s)
  show ?case
  proof (cases "find (HasSuffix s) space_runes")
    case None
    then show ?thesis by (subst TrimRight.simps) (simp add: no_trailing_space_def)
  next
    case (Some p)
    with 1 show ?thesis by (subst TrimRight.simps) simp
  qed
qed

lemma TrimLeft_drop: "\<exists>n. TrimLeft s = drop n s"
proof (induction s rule: TrimLeft.induct)
  case (1 s)
  show ?case
  proof (cases "find (HasPrefix s) space_runes")
    case None
    then have "TrimLeft s = drop 0 s" by (subst TrimLeft.simps) simp
    then show ?thesis by blast
  next
    case (Some p)
    with 1 obtain n where "TrimLeft (drop (length p) s) = drop n (drop (length p) s)" by blast
    with Some have "TrimLeft s = drop (n + length p) s"
      by (subst TrimLeft.simps) simp
    then show ?thesis by blast
  qed
qed

lemma TrimRight_take: "\<exists>n. TrimRight s = take n s"
proof (induction s rule: TrimRight.induct)
  case (1 s)
  show ?case
  proof (cases "find (HasSuffix s) space_runes")
    case None
    then have "TrimRight s = take (length s) s" by (subst TrimRight.simps) simp
    then show ?thesis by blast
  next
    case (Some p)
    with 1 obtain n where
      "TrimRight (take (length s - length p) s) = take n (take (length s - length p) s)"
      by blast
    with Some have "TrimRight s = take (min n (length s - length p)) s"
      by (subst TrimRight.simps) simp
    then show ?thesis by blast
  qed
qed

lemma HasPrefix_take: "HasPrefix (take n s) p \<Longrightarrow> HasPrefix s p"
  by (auto simp: HasPrefix_def min_def split: if_splits)

lemma no_leading_space_take: "no_leading_space s \<Longrightarrow> no_leading_space (take n s)"
  by (auto simp: no_leading_space_def find_None_iff dest: HasPrefix_take)

lemma TrimSpace_trimmed: "no_leading_space (TrimSpace s) \<and> no_trailing_space (TrimSpace s)"
proof -
  obtain n where n: "TrimRight (TrimLeft s) = take n (TrimLeft s)"
    using TrimRight_take by blast
  have "no_leading_space (take n (TrimLeft s))"
    by (rule no_leading_space_take) (rule no_leading_space_TrimLeft)
  then have "no_leading_space (TrimRight (TrimLeft s))" by (simp only: n)
  then show ?thesis by (simp add: TrimSpace_def no_trailing_space_TrimRight)
qed

lemma TrimSpace_id: "no_leading_space s \<Longrightarrow> no_trailing_space s \<Longrightarrow> TrimSpace s = s"
  by (simp add: TrimSpace_def TrimLeft_id TrimRight_id)

lemma TrimSpace_idem: "TrimSpace (TrimSpace s) = TrimSpace s"
  using TrimSpace_trimmed [of s] by (simp add: TrimSpace_id)

lemma set_TrimSpace: "set (TrimSpace s) \<subseteq> set s"
proof -
  obtain n where n: "TrimLeft s = drop n s" using TrimLeft_drop by blast
  obtain m where m: "TrimRight (drop n s) = take m (drop n s)" using TrimRight_take by blast
  have "set (take m (drop n s)) \<subseteq> set (drop n s)" by (rule set_take_subset)
  also have "\<dots> \<subseteq> set s" by (rule set_drop_subset)
  finally show ?thesis by (simp add: TrimSpace_def n m)
qed

lemma TrimSpace_Nil: "TrimSpace [] = []"
  using set_TrimSpace [of "[]"] by simp

lemma TrimLeft_newline: "TrimLeft (newline # s) = TrimLeft s"
  by (subst TrimLeft.simps) (simp add: space_runes_def HasPrefix_def)

lemma TrimSpace_newline: "TrimSpace (newline # s) = TrimSpace s"
  by (simp add: TrimSpace_def TrimLeft_newline)

lemma HasPrefix_single: "HasPrefix s [c] \<longleftrightarrow> s \<noteq> [] \<and> hd s = c"
  by (cases s) (simp_all add: HasPrefix_def)

lemma no_leading_space_hd:
  assumes "no_leading_space s" "s \<noteq> []"
  shows "hd s \<notin> set perl_space"
proof
  assume "hd s \<in> set perl_space"
  then have "[hd s] \<in> set space_runes" by (auto simp: perl_space_def space_runes_def)
  moreover from assms have "HasPrefix s [hd s]" by (simp add: HasPrefix_single)
  ultimately show False using assms(1) by (auto simp: no_leading_space_def find_None_iff)
qed

lemma no_trailing_space_last:
  assumes "no_trailing_space s" "s \<noteq> []"
  shows "last s \<noteq> newline \<and> last s \<noteq> carriage_return"
proof -
  have "[newline] \<in> set space_runes" "[carriage_return] \<in> set space_runes"
    by (simp_all add: space_runes_def)
  with assms(1) have "\<not> HasSuffix s [newline]" "\<not> HasSuffix s [carriage_return]"
    by (auto simp: no_trailing_space_def find_None_iff)
  with assms(2) show ?thesis by (simp add: HasSuffix_single)
qed

section \<open>Properties of the reader\<close>

text \<open>The lines that \<open>readln\<close> returns without an error, one after another.\<close>

function lines_of :: "Reader \<Rightarrow> string list" where
  "lines_of r =
     (case readln r of
        ((line, None), r') \<Rightarrow> line # lines_of r'
      | ((line, Some e), r') \<Rightarrow> [])"
  by pat_completeness auto
termination
  by (relation "measure length") (auto dest: readln_length [OF sym])

declare lines_of.simps [simp del]

lemma loop_lines_of:
  "readTitleAndBody_loop tp bp l None r = gather tp bp (l # lines_of r)"
proof (induction r arbitrary: tp bp l rule: measure_induct_rule [where f = length])
  case (less r)
  obtain l' e r' where rl: "readln r = ((l', e), r')" by (metis prod.exhaust)
  show ?case
  proof (cases e)
    case None
    with rl have lo: "lines_of r = l' # lines_of r'" by (subst lines_of.simps) simp
    from readln_length [OF rl] None have "length r' < length r" by simp
    from less [OF this]
    have IH: "\<And>tp bp. readTitleAndBody_loop tp bp l' None r' = gather tp bp (l' # lines_of r')" .
    show ?thesis
      by (subst readTitleAndBody_loop.simps)
         (simp add: rl None lo IH del: gather.simps(2), simp)
  next
    case (Some err)
    with rl have lo: "lines_of r = []" by (subst lines_of.simps) simp
    show ?thesis
      by (subst readTitleAndBody_loop.simps) (simp add: rl Some lo loop_error)
  qed
qed

lemma readTitleAndBody_lines_of:
  "readTitleAndBody r =
     (TrimSpace (Join (fst (gather [] [] (lines_of r))) '' ''),
      TrimSpace (Join (snd (gather [] [] (lines_of r))) [newline]), None)"
proof -
  obtain l e r' where rl: "readln r = ((l, e), r')" by (metis prod.exhaust)
  show ?thesis
  proof (cases e)
    case None
    with rl have lo: "lines_of r = l # lines_of r'" by (subst lines_of.simps) simp
    show ?thesis
      by (simp add: readTitleAndBody_def rl None lo loop_lines_of
          split: prod.split del: gather.simps(2))
  next
    case (Some err)
    with rl have lo: "lines_of r = []" by (subst lines_of.simps) simp
    show ?thesis
      by (simp add: readTitleAndBody_def rl Some lo loop_error)
  qed
qed

text \<open>
  The lines of a text: it is cut at its line feeds, a line loses one carriage return
  before its line feed, and what is left behind the last line feed is a line when it is
  not empty.
\<close>

definition drop_cr :: "string \<Rightarrow> string" where
  "drop_cr l = (if l \<noteq> [] \<and> last l = carriage_return then butlast l else l)"

definition text_lines :: "string \<Rightarrow> string list" where
  "text_lines text =
     (let segs = Split text newline
      in map drop_cr (butlast segs) @ (if last segs = [] then [] else [last segs]))"

lemma bufsize_gt: "1 < defaultBufSize"
  by (simp add: defaultBufSize_def)

lemma ReadSlice_line:
  "newline \<notin> set seg \<Longrightarrow> length seg < defaultBufSize \<Longrightarrow>
   ReadSlice (seg @ newline # rest) = ((seg @ [newline], None), rest)"
  by (simp add: ReadSlice_def Index_append_sep)

lemma ReadSlice_full:
  "newline \<notin> set seg \<Longrightarrow> defaultBufSize \<le> length seg \<Longrightarrow>
   ReadSlice (seg @ newline # rest) =
     ((take defaultBufSize seg, Some ErrBufferFull), drop defaultBufSize seg @ newline # rest)"
  by (simp add: ReadSlice_def Index_append_sep)

lemma ReadSlice_rest:
  "newline \<notin> set t \<Longrightarrow> length t < defaultBufSize \<Longrightarrow> ReadSlice t = ((t, Some EOF), [])"
  by (simp add: ReadSlice_def Index_None_iff [THEN iffD2])

lemma ReadLine_line:
  assumes "newline \<notin> set seg" "length seg < defaultBufSize"
  shows "bufio_ReadLine (seg @ newline # rest) = ((drop_cr seg, False, None), rest)"
proof (cases seg rule: rev_cases)
  case Nil
  with assms show ?thesis
    using ReadSlice_line [of "[]" rest] by (simp add: bufio_ReadLine_def drop_cr_def)
next
  case (snoc ys y)
  have "(ys @ [y, newline]) ! length ys = y"
    by (simp add: nth_append)
  with assms snoc show ?thesis
    using ReadSlice_line [of seg rest]
    by (simp add: bufio_ReadLine_def drop_cr_def Let_def nth_append)
qed

lemma ReadLine_full:
  assumes "newline \<notin> set seg" "defaultBufSize \<le> length seg"
  shows "\<exists>k. 0 < k \<and> k \<le> length seg \<and>
           bufio_ReadLine (seg @ newline # rest)
             = ((take k seg, True, None), drop k seg @ newline # rest) \<and>
           (k = length seg \<longrightarrow> last seg \<noteq> carriage_return)"
proof -
  define B where "B = defaultBufSize"
  have B: "1 < B" "B \<le> length seg" using assms(2) bufsize_gt by (simp_all add: B_def)
  have rs: "ReadSlice (seg @ newline # rest) =
      ((take B seg, Some ErrBufferFull), drop B seg @ newline # rest)"
    unfolding B_def by (rule ReadSlice_full [OF assms])
  have len: "length (take B seg) = B" using B by simp
  have nth: "take B seg ! (B - 1) = seg ! (B - 1)" using B by simp
  show ?thesis
  proof (cases "seg ! (B - 1) = carriage_return")
    case True
    have "drop (B - 1) seg = seg ! (B - 1) # drop (Suc (B - 1)) seg"
      using B by (intro Cons_nth_drop_Suc [symmetric]) simp
    moreover have "Suc (B - 1) = B" using B by simp
    ultimately have d: "carriage_return # drop B seg = drop (B - 1) seg"
      using True by (simp only:)
    have "take (B - 1) (take B seg) = take (B - 1) seg" by (simp add: min_def)
    with True B have "bufio_ReadLine (seg @ newline # rest)
        = ((take (B - 1) seg, True, None), drop (B - 1) seg @ newline # rest)"
      by (simp add: bufio_ReadLine_def rs len nth d)
    moreover from B have "0 < B - 1" "B - 1 \<le> length seg" "B - 1 \<noteq> length seg"
      by simp_all
    ultimately show ?thesis by (intro exI [of _ "B - 1"]) (simp only: simp_thms)
  next
    case False
    with B have rl: "bufio_ReadLine (seg @ newline # rest)
        = ((take B seg, True, None), drop B seg @ newline # rest)"
      by (simp add: bufio_ReadLine_def rs len nth)
    have "B = length seg \<Longrightarrow> last seg \<noteq> carriage_return"
      using False B by (cases seg rule: rev_cases) (auto simp: nth_append)
    with B rl show ?thesis by (intro exI [of _ B]) simp
  qed
qed

lemma ReadLine_rest:
  assumes "newline \<notin> set t" "length t < defaultBufSize" "t \<noteq> []"
  shows "bufio_ReadLine t = ((t, False, None), [])"
proof -
  from assms(3) have "last t \<in> set t" by (rule last_in_set)
  with assms(1) have "last t \<noteq> newline" by auto
  with assms(3) have "t ! (length t - 1) \<noteq> newline" by (simp add: last_conv_nth)
  with assms show ?thesis by (simp add: bufio_ReadLine_def ReadSlice_rest)
qed

lemma ReadLine_end: "bufio_ReadLine [] = (([], False, Some EOF), [])"
  by (simp add: bufio_ReadLine_def ReadSlice_def defaultBufSize_def)

lemma drop_cr_id_iff: "drop_cr l = l \<longleftrightarrow> l = [] \<or> last l \<noteq> carriage_return"
proof (cases l rule: rev_cases)
  case Nil
  then show ?thesis by (simp add: drop_cr_def)
next
  case (snoc ys y)
  then show ?thesis by (simp add: drop_cr_def)
qed

lemma drop_cr_append: "b \<noteq> [] \<Longrightarrow> drop_cr (a @ b) = a @ drop_cr b"
  by (simp add: drop_cr_def butlast_append)

lemma drop_cr_take_drop:
  assumes "k \<le> length seg" "k = length seg \<longrightarrow> last seg \<noteq> carriage_return"
  shows "take k seg @ drop_cr (drop k seg) = drop_cr seg"
proof (cases "k = length seg")
  case True
  with assms(2) show ?thesis by (simp add: drop_cr_id_iff drop_cr_def)
next
  case False
  with assms(1) have "drop k seg \<noteq> []" by simp
  from drop_cr_append [OF this, of "take k seg"] show ?thesis by simp
qed

lemma readln_loop_piece:
  "readln_loop acc True None ((l, True) # r) = readln_loop (acc @ l) True None r"
  by (subst readln_loop.simps) simp

lemma readln_loop_last_piece:
  "readln_loop acc True None ((l, False) # r) = ((acc @ l, None), r)"
  by (subst readln_loop.simps) (simp add: readln_loop.simps [of _ False])

lemma readln_loop_end: "readln_loop acc True None [] = ((acc, Some EOF), [])"
  by (subst readln_loop.simps) (simp add: readln_loop.simps [of _ False])

lemma readln_loop_pending_line:
  "newline \<notin> set seg \<Longrightarrow>
   readln_loop acc True None (pending (seg @ newline # rest))
     = ((acc @ drop_cr seg, None), pending rest)"
proof (induction seg arbitrary: acc rule: length_induct)
  case (1 seg)
  show ?case
  proof (cases "length seg < defaultBufSize")
    case True
    from ReadLine_line [OF "1.prems" True, of rest]
    have "pending (seg @ newline # rest) = (drop_cr seg, False) # pending rest"
      by (subst pending.simps) simp
    then show ?thesis by (simp add: readln_loop_last_piece)
  next
    case False
    then have "defaultBufSize \<le> length seg" by simp
    from ReadLine_full [OF "1.prems" this, of rest] obtain k where
      k: "0 < k" "k \<le> length seg" "k = length seg \<longrightarrow> last seg \<noteq> carriage_return"
      and rl: "bufio_ReadLine (seg @ newline # rest)
                 = ((take k seg, True, None), drop k seg @ newline # rest)"
      by blast
    from rl have p: "pending (seg @ newline # rest)
        = (take k seg, True) # pending (drop k seg @ newline # rest)"
      by (subst pending.simps) simp
    from k False have shorter: "length (drop k seg) < length seg" by simp
    from "1.prems" have "newline \<notin> set (drop k seg)"
      using set_drop_subset [of k seg] by auto
    with "1.IH" shorter have
      "readln_loop (acc @ take k seg) True None (pending (drop k seg @ newline # rest))
         = (((acc @ take k seg) @ drop_cr (drop k seg), None), pending rest)"
      by blast
    with drop_cr_take_drop [OF k(2,3)] show ?thesis
      by (simp add: p readln_loop_piece)
  qed
qed

lemma lines_of_Nil: "lines_of [] = []"
  by (subst lines_of.simps) (simp add: readln_Nil)

lemma pending_Nil: "pending [] = []"
  by (subst pending.simps) (simp add: ReadLine_end)

lemma lines_of_pending_line:
  "newline \<notin> set seg \<Longrightarrow>
   lines_of (pending (seg @ newline # rest)) = drop_cr seg # lines_of (pending rest)"
  using readln_loop_pending_line [of seg "[]" rest]
  by (subst lines_of.simps) (simp add: readln_def)

lemma ReadLine_full_rest:
  assumes "newline \<notin> set t" "defaultBufSize \<le> length t" "carriage_return \<notin> set t"
  shows "bufio_ReadLine t
           = ((take defaultBufSize t, True, None), drop defaultBufSize t)"
proof -
  define B where "B = defaultBufSize"
  have B: "1 < B" "B \<le> length t" using assms(2) bufsize_gt by (simp_all add: B_def)
  have rs: "ReadSlice t = ((take B t, Some ErrBufferFull), drop B t)"
    using assms(1,2) by (simp add: ReadSlice_def Index_None_iff [THEN iffD2] B_def)
  have len: "length (take B t) = B" using B by simp
  from B have "t ! (B - 1) \<in> set t" by (intro nth_mem) simp
  with assms(3) have "t ! (B - 1) \<noteq> carriage_return" by auto
  moreover have "take B t ! (B - 1) = t ! (B - 1)" using B by simp
  ultimately have "bufio_ReadLine t = ((take B t, True, None), drop B t)"
    using B by (simp add: bufio_ReadLine_def rs len)
  then show ?thesis by (simp only: B_def)
qed

lemma readln_loop_pending_rest:
  "newline \<notin> set t \<Longrightarrow> carriage_return \<notin> set t \<Longrightarrow>
   \<not> defaultBufSize dvd length t \<Longrightarrow>
   readln_loop acc True None (pending t) = ((acc @ t, None), [])"
proof (induction t arbitrary: acc rule: length_induct)
  case (1 t)
  from "1.prems"(3) have ne: "t \<noteq> []" by auto
  show ?case
  proof (cases "length t < defaultBufSize")
    case True
    from ReadLine_rest [OF "1.prems"(1) True ne] have "pending t = [(t, False)]"
      by (subst pending.simps) (simp add: pending_Nil)
    then show ?thesis by (simp add: readln_loop_last_piece)
  next
    case False
    then have full: "defaultBufSize \<le> length t" by simp
    from ReadLine_full_rest [OF "1.prems"(1) full "1.prems"(2)]
    have p: "pending t = (take defaultBufSize t, True) # pending (drop defaultBufSize t)"
      by (subst pending.simps) simp
    from full bufsize_gt have shorter: "length (drop defaultBufSize t) < length t" by simp
    from "1.prems"(1,2) have free: "newline \<notin> set (drop defaultBufSize t)"
      "carriage_return \<notin> set (drop defaultBufSize t)"
      using set_drop_subset [of defaultBufSize t] by auto
    have nodvd: "\<not> defaultBufSize dvd length (drop defaultBufSize t)"
    proof
      assume "defaultBufSize dvd length (drop defaultBufSize t)"
      then have "defaultBufSize dvd length t - defaultBufSize" by simp
      from dvd_diffD [OF this dvd_refl full] "1.prems"(3) show False by simp
    qed
    from "1.IH" [rule_format, OF shorter free nodvd]
    have "readln_loop (acc @ take defaultBufSize t) True None (pending (drop defaultBufSize t))
         = (((acc @ take defaultBufSize t) @ drop defaultBufSize t, None), [])" .
    then show ?thesis by (simp add: p readln_loop_piece)
  qed
qed

lemma lines_of_pending_rest:
  assumes "newline \<notin> set t"
    "length t < defaultBufSize \<or>
     carriage_return \<notin> set t \<and> \<not> defaultBufSize dvd length t"
  shows "lines_of (pending t) = (if t = [] then [] else [t])"
proof (cases "t = []")
  case True
  then show ?thesis by (simp add: pending_Nil lines_of_Nil)
next
  case False
  have "readln (pending t) = ((t, None), [])"
  proof (cases "length t < defaultBufSize")
    case True
    from ReadLine_rest [OF assms(1) True False] have "pending t = [(t, False)]"
      by (subst pending.simps) (simp add: pending_Nil)
    then show ?thesis by (simp add: readln_def readln_loop_last_piece)
  next
    case False
    with assms(2) have "carriage_return \<notin> set t" "\<not> defaultBufSize dvd length t"
      by simp_all
    from readln_loop_pending_rest [OF assms(1) this, of "[]"] show ?thesis
      by (simp add: readln_def)
  qed
  with False show ?thesis
    by (subst lines_of.simps) (simp add: lines_of_Nil)
qed

lemma text_lines_no_newline:
  "newline \<notin> set t \<Longrightarrow> text_lines t = (if t = [] then [] else [t])"
  by (simp add: text_lines_def Split_no_sep)

lemma text_lines_line:
  "newline \<notin> set seg \<Longrightarrow> text_lines (seg @ newline # rest) = drop_cr seg # text_lines rest"
  by (simp add: text_lines_def Let_def Split_first_sep Split_not_Nil)

lemma lines_of_NewReader:
  "length (last (Split s newline)) < defaultBufSize \<or>
   carriage_return \<notin> set (last (Split s newline)) \<and>
   \<not> defaultBufSize dvd length (last (Split s newline)) \<Longrightarrow>
   lines_of (NewReader s) = text_lines s"
proof (induction s rule: length_induct)
  case (1 s)
  show ?case
  proof (cases "newline \<in> set s")
    case False
    with "1.prems" have
      "length s < defaultBufSize \<or> carriage_return \<notin> set s \<and> \<not> defaultBufSize dvd length s"
      by (simp add: Split_no_sep)
    from lines_of_pending_rest [OF False this] False show ?thesis
      by (simp add: NewReader_def text_lines_no_newline)
  next
    case True
    then obtain seg rest where s: "s = seg @ newline # rest" and seg: "newline \<notin> set seg"
      by (auto dest: split_list_first)
    have "last (Split s newline) = last (Split rest newline)"
      using seg by (simp add: s Split_first_sep Split_not_Nil)
    with "1.prems" have
      "length (last (Split rest newline)) < defaultBufSize \<or>
       carriage_return \<notin> set (last (Split rest newline)) \<and>
       \<not> defaultBufSize dvd length (last (Split rest newline))"
      by simp
    moreover have "length rest < length s" by (simp add: s)
    ultimately have "lines_of (NewReader rest) = text_lines rest"
      using "1.IH" by blast
    with seg show ?thesis
      by (simp add: s NewReader_def lines_of_pending_line text_lines_line)
  qed
qed

section \<open>Parsing a parsed message again\<close>

text \<open>A carriage return directly before a line feed, somewhere in the text.\<close>

fun has_crlf :: "string \<Rightarrow> bool" where
  "has_crlf (c # d # s) = (c = carriage_return \<and> d = newline \<or> has_crlf (d # s))"
| "has_crlf s = False"

lemma Join_Cons: "xs \<noteq> [] \<Longrightarrow> Join (a # xs) sep = a @ sep @ Join xs sep"
  by (cases xs) simp_all

lemma Join_Split: "Join (Split s sep) [sep] = s"
proof (induction s rule: length_induct)
  case (1 s)
  show ?case
  proof (cases "sep \<in> set s")
    case False
    then show ?thesis by (simp add: Split_no_sep)
  next
    case True
    then obtain l rest where s: "s = l @ sep # rest" and l: "sep \<notin> set l"
      by (auto dest: split_list_first)
    from 1 have "Join (Split rest sep) [sep] = rest" by (simp add: s)
    with l show ?thesis by (simp add: s Split_first_sep Join_Cons Split_not_Nil)
  qed
qed

lemma last_Split_Nil_iff: "last (Split s sep) = [] \<longleftrightarrow> s = [] \<or> last s = sep"
proof (cases "sep \<in> set s")
  case False
  then have "s \<noteq> [] \<Longrightarrow> last s \<noteq> sep" using last_in_set [of s] by blast
  with False show ?thesis by (auto simp: Split_no_sep)
next
  case True
  then obtain a b where s: "s = a @ sep # b" and b: "sep \<notin> set b"
    by (auto dest: split_list_last)
  have "last (Split s sep) = b" by (simp add: s last_Split_append Split_no_sep b)
  with b show ?thesis by (auto simp: s)
qed

lemma has_crlf_Cons: "has_crlf s \<Longrightarrow> has_crlf (c # s)"
  by (cases s) simp_all

lemma has_crlf_line:
  "\<not> has_crlf (l @ newline # rest) \<Longrightarrow> drop_cr l = l \<and> \<not> has_crlf rest"
proof (induction l)
  case Nil
  then show ?case using has_crlf_Cons [of rest newline] by (auto simp: drop_cr_def)
next
  case (Cons c l)
  from Cons.prems have "\<not> has_crlf (l @ newline # rest)"
    using has_crlf_Cons [of "l @ newline # rest" c] by auto
  with Cons.IH have IH: "drop_cr l = l" "\<not> has_crlf rest" by simp_all
  show ?case
  proof (cases l)
    case Nil
    with Cons.prems IH show ?thesis by (simp add: drop_cr_id_iff)
  next
    case (Cons d l')
    with IH show ?thesis by (simp add: drop_cr_id_iff)
  qed
qed

lemma drop_cr_lines:
  "\<not> has_crlf s \<Longrightarrow> map drop_cr (butlast (Split s newline)) = butlast (Split s newline)"
proof (induction s rule: length_induct)
  case (1 s)
  show ?case
  proof (cases "newline \<in> set s")
    case False
    then show ?thesis by (simp add: Split_no_sep)
  next
    case True
    then obtain l rest where s: "s = l @ newline # rest" and l: "newline \<notin> set l"
      by (auto dest: split_list_first)
    from has_crlf_line [of l rest] "1.prems"
    have *: "drop_cr l = l" "\<not> has_crlf rest" by (simp_all add: s)
    with 1 have "map drop_cr (butlast (Split rest newline)) = butlast (Split rest newline)"
      by (simp add: s)
    with l * show ?thesis by (simp add: s Split_first_sep Split_not_Nil)
  qed
qed

lemma text_lines_trimmed:
  assumes "no_trailing_space s" "\<not> has_crlf s"
  shows "text_lines s = (if s = [] then [] else Split s newline)"
proof (cases "s = []")
  case True
  then show ?thesis by (simp add: text_lines_def Split_no_sep)
next
  case False
  with assms(1) have "last (Split s newline) \<noteq> []"
    by (simp add: last_Split_Nil_iff no_trailing_space_last)
  with False assms(2) show ?thesis
    by (simp add: text_lines_def Let_def drop_cr_lines Split_not_Nil)
qed

lemma text_lines_title_body:
  assumes "newline \<notin> set title" "no_trailing_space title"
    "no_trailing_space body" "\<not> has_crlf body"
  shows "text_lines (title @ [newline, newline] @ body) =
           title # [] # (if body = [] then [] else Split body newline)"
proof -
  define segs where "segs = Split body newline"
  define rest where "rest = (if body = [] then [] else Split body newline)"
  have sp: "Split (title @ [newline, newline] @ body) newline = title # [] # segs"
    using assms(1) Split_first_sep [of newline title "newline # body"]
      Split_first_sep [of newline "[]" body] by (simp add: segs_def)
  have segs: "segs \<noteq> []" by (simp add: segs_def Split_not_Nil)
  have title: "drop_cr title = title"
    using no_trailing_space_last [OF assms(2)] by (auto simp: drop_cr_id_iff)
  have tail: "map drop_cr (butlast segs) @ (if last segs = [] then [] else [last segs]) = rest"
    using text_lines_trimmed [OF assms(3,4)]
    by (simp only: text_lines_def Let_def segs_def rest_def)
  have "map drop_cr (butlast (title # [] # segs)) @
       (if last (title # [] # segs) = [] then [] else [last (title # [] # segs)])
     = drop_cr title # drop_cr [] #
        (map drop_cr (butlast segs) @ (if last segs = [] then [] else [last segs]))"
    using segs by simp
  also have "\<dots> = title # [] # rest"
    by (simp only: tail title) (simp add: drop_cr_def)
  finally have
    "map drop_cr (butlast (title # [] # segs)) @
       (if last (title # [] # segs) = [] then [] else [last (title # [] # segs)])
     = title # [] # rest" .
  then show ?thesis by (simp only: text_lines_def Let_def sp rest_def)
qed

lemma gather_body:
  "bp \<noteq> [] \<Longrightarrow> \<forall>l \<in> set ls. \<not> HasPrefix l ''#'' \<Longrightarrow> gather tp bp ls = (tp, bp @ ls)"
  by (induction ls arbitrary: bp) simp_all

lemma gather_parts: "set (fst (gather tp bp ls)) \<subseteq> set tp \<union> set ls"
proof (induction ls arbitrary: tp bp)
  case Nil
  show ?case by simp
next
  case (Cons l ls)
  from Cons [of "tp @ [l]" bp] Cons [of tp "bp @ [l]"] show ?case by auto
qed

lemma set_Join: "set (Join xs sep) \<subseteq> \<Union> (set ` set xs) \<union> set sep"
  by (induction xs sep rule: Join.induct) auto

lemma HasPrefix_Nil: "\<not> HasPrefix [] ''#''"
  by (simp add: HasPrefix_def)

lemma not_MatchString_Nil: "\<not> MatchString non_space_regexp []"
  by (simp add: MatchString_non_space)

lemma gather_blank_first:
  assumes "\<forall>l \<in> set rest. \<not> HasPrefix l ''#''"
  shows "gather tp [] ([] # rest) = (tp, [] # rest)"
  using gather_body [of "[[]]" rest tp] assms
  by (simp add: HasPrefix_Nil not_MatchString_Nil)

lemma gather_title_first:
  assumes "\<not> HasPrefix t ''#''" "MatchString non_space_regexp t"
    "\<forall>l \<in> set rest. \<not> HasPrefix l ''#''"
  shows "gather [] [] (t # [] # rest) = ([t], [] # rest)"
  using gather_blank_first [OF assms(3), of "[t]"] assms(1,2) by simp

lemma Join_blank_body:
  "no_leading_space body \<Longrightarrow> no_trailing_space body \<Longrightarrow>
   TrimSpace (Join ([] # (if body = [] then [] else Split body newline)) [newline]) = body"
  by (simp add: TrimSpace_Nil Join_Cons Split_not_Nil Join_Split TrimSpace_newline TrimSpace_id)

text \<open>
  C3, as amended. Let the parser yield title and body on a sequence of lines. If no line
  of the text made of the title, two line feeds and the body begins with \<open>#\<close>, the
  body has no carriage return directly before a line feed, and the last line of the body
  is shorter than the reader's buffer of 4096 bytes, or has no carriage return and a
  length that is no multiple of 4096, then parsing that text yields the same title and
  the same body.
\<close>

theorem readTitleAndBody_reparse:
  assumes lines: "\<forall>l \<in> set ls. newline \<notin> set l"
    and parse: "readTitleAndBody (reader_of_lines ls) = (title, body, err)"
    and nocomment:
      "\<forall>l \<in> set (Split (title @ [newline, newline] @ body) newline). \<not> HasPrefix l ''#''"
    and nocrlf: "\<not> has_crlf body"
    and whole:
      "length (last (Split body newline)) < defaultBufSize \<or>
       carriage_return \<notin> set (last (Split body newline)) \<and>
       \<not> defaultBufSize dvd length (last (Split body newline))"
  shows "readTitleAndBody (NewReader (title @ [newline, newline] @ body)) = (title, body, None)"
proof -
  define rest where "rest = (if body = [] then [] else Split body newline)"
  from parse have title: "title = TrimSpace (Join (fst (gather [] [] ls)) '' '')"
    and body: "body = TrimSpace (Join (snd (gather [] [] ls)) [newline])"
    by (simp_all add: readTitleAndBody_gather)
  have t: "no_leading_space title" "no_trailing_space title"
    and b: "no_leading_space body" "no_trailing_space body"
    using TrimSpace_trimmed title body by simp_all
  have "set title \<subseteq> set (Join (fst (gather [] [] ls)) '' '')"
    unfolding title by (rule set_TrimSpace)
  also have "\<dots> \<subseteq> \<Union> (set ` set (fst (gather [] [] ls))) \<union> set '' ''"
    by (rule set_Join)
  finally have nl: "newline \<notin> set title"
    using lines gather_parts [of "[]" "[]" ls] by auto
  have tl: "text_lines (title @ [newline, newline] @ body) = title # [] # rest"
    unfolding rest_def by (rule text_lines_title_body [OF nl t(2) b(2) nocrlf])
  have sp: "Split (title @ [newline, newline] @ body) newline = title # [] # Split body newline"
    using nl Split_first_sep [of newline title "newline # body"]
      Split_first_sep [of newline "[]" body] by simp
  from nocomment have nc: "\<not> HasPrefix title ''#''" "\<forall>l \<in> set rest. \<not> HasPrefix l ''#''"
    unfolding sp by (simp_all add: rest_def)
  have body': "TrimSpace (Join ([] # rest) [newline]) = body"
    unfolding rest_def by (rule Join_blank_body [OF b])
  have "last (Split (title @ [newline, newline] @ body) newline) = last (Split body newline)"
    unfolding sp by (simp add: Split_not_Nil)
  with whole have
    "length (last (Split (title @ [newline, newline] @ body) newline)) < defaultBufSize \<or>
     carriage_return \<notin> set (last (Split (title @ [newline, newline] @ body) newline)) \<and>
     \<not> defaultBufSize dvd length (last (Split (title @ [newline, newline] @ body) newline))"
    by (simp only:)
  from lines_of_NewReader [OF this]
  have lo: "lines_of (NewReader (title @ [newline, newline] @ body)) = title # [] # rest"
    by (simp only: tl)
  have re: "readTitleAndBody (NewReader (title @ [newline, newline] @ body)) =
      (TrimSpace (Join (fst (gather [] [] (title # [] # rest))) '' ''),
       TrimSpace (Join (snd (gather [] [] (title # [] # rest))) [newline]), None)"
    by (simp only: readTitleAndBody_lines_of lo)
  show ?thesis
  proof (cases "title = []")
    case True
    have g: "gather [] [] (title # [] # rest) = ([], [] # [] # rest)"
      using gather_blank_first [of "[] # rest" "[]"] nc(2) by (simp add: True HasPrefix_Nil)
    have "TrimSpace (Join ([] # [] # rest) [newline]) = body"
      using body' by (simp add: TrimSpace_newline)
    then show ?thesis unfolding re g by (simp add: True TrimSpace_Nil)
  next
    case False
    with t(1) have "hd title \<in> set title" "hd title \<notin> set perl_space"
      by (simp_all add: no_leading_space_hd)
    then have "MatchString non_space_regexp title"
      unfolding MatchString_non_space by blast
    from gather_title_first [OF nc(1) this nc(2)]
    show ?thesis unfolding re by (simp add: body' TrimSpace_id t)
  qed
qed

theorem readTitleAndBody_reparse_witness:
  "readTitleAndBody (reader_of_lines
      [''  Fix bug '', ''second line'', [], ''Details here'', [], ''more details'',
       ''# comment'', ''ignored''])
     = (''Fix bug  second line'', ''Details here'' @ [newline, newline] @ ''more details'', None) \<and>
   \<not> has_crlf (''Details here'' @ [newline, newline] @ ''more details'') \<and>
   readTitleAndBody (NewReader (''Fix bug  second line'' @ [newline, newline] @
      (''Details here'' @ [newline, newline] @ ''more details'')))
     = (''Fix bug  second line'', ''Details here'' @ [newline, newline] @ ''more details'', None)"
proof -
  have lines: "\<forall>l \<in> set [''  Fix bug '', ''second line'', [], ''Details here'', [],
      ''more details'', ''# comment'', ''ignored'']. newline \<notin> set l"
    by simp
  have parse: "readTitleAndBody (reader_of_lines
      [''  Fix bug '', ''second line'', [], ''Details here'', [], ''more details'',
       ''# comment'', ''ignored''])
     = (''Fix bug  second line'', ''Details here'' @ [newline, newline] @ ''more details'', None)"
    by code_simp
  have nocomment: "\<forall>l \<in> set (Split (''Fix bug  second line'' @ [newline, newline] @
      (''Details here'' @ [newline, newline] @ ''more details'')) newline).
      \<not> HasPrefix l ''#''"
    by code_simp
  have nocrlf: "\<not> has_crlf (''Details here'' @ [newline, newline] @ ''more details'')"
    by simp
  have "length (last (Split (''Details here'' @ [newline, newline] @ ''more details'')
      newline)) < defaultBufSize"
    by code_simp
  then have whole:
    "length (last (Split (''Details here'' @ [newline, newline] @ ''more details'') newline))
       < defaultBufSize \<or>
     carriage_return \<notin> set (last (Split (''Details here'' @ [newline, newline] @
       ''more details'') newline)) \<and>
     \<not> defaultBufSize dvd length (last (Split (''Details here'' @ [newline, newline] @
       ''more details'') newline))"
    by (rule disjI1)
  from readTitleAndBody_reparse [OF lines parse nocomment nocrlf whole] parse nocrlf
  show ?thesis by simp
qed

lemma pending_full_last_line:
  assumes "newline \<notin> set x" "length x = defaultBufSize" "last x \<noteq> carriage_return"
  shows "pending x = [(x, True)]"
proof -
  from assms(2) have ne: "x \<noteq> []" by (auto simp: defaultBufSize_def)
  have "ReadSlice x = ((x, Some ErrBufferFull), [])"
    using assms(1,2) by (simp add: ReadSlice_def Index_None_iff [THEN iffD2])
  moreover from ne assms(3) have "x ! (length x - 1) \<noteq> carriage_return"
    by (simp add: last_conv_nth)
  ultimately have "bufio_ReadLine x = ((x, True, None), [])"
    using ne by (simp add: bufio_ReadLine_def)
  then show ?thesis by (subst pending.simps) (simp add: pending_Nil)
qed

lemma lines_of_lost_piece: "lines_of [(x, True)] = []"
  by (subst lines_of.simps) (simp add: readln_def readln_loop_piece readln_loop_end)

lemma lines_of_full_last_line:
  assumes "newline \<notin> set t" "newline \<notin> set x" "length x = defaultBufSize"
    "last x \<noteq> carriage_return"
  shows "lines_of (NewReader (t @ [newline, newline] @ x)) = [drop_cr t, []]"
proof -
  have "lines_of (pending (t @ newline # newline # x))
          = drop_cr t # lines_of (pending ([] @ newline # x))"
    using lines_of_pending_line [OF assms(1), of "newline # x"] by simp
  also have "lines_of (pending ([] @ newline # x)) = drop_cr [] # lines_of (pending x)"
    by (rule lines_of_pending_line) simp
  finally show ?thesis
    by (simp add: NewReader_def pending_full_last_line [OF assms(2-4)] lines_of_lost_piece
        drop_cr_def)
qed

lemma no_leading_space_replicate_x: "no_leading_space (replicate 4096 CHR ''x'')"
  by (simp add: no_leading_space_def space_runes_def HasPrefix_def
      numeral_2_eq_2 numeral_3_eq_3)

lemma no_trailing_space_replicate_x: "no_trailing_space (replicate 4096 CHR ''x'')"
  by (simp add: no_trailing_space_def space_runes_def HasSuffix_def
      numeral_2_eq_2 numeral_3_eq_3)

lemma parse_full_last_line:
  "readTitleAndBody (reader_of_lines [''t'', [], replicate 4096 CHR ''x''])
     = (''t'', replicate 4096 CHR ''x'', None)"
proof -
  have "MatchString non_space_regexp ''t''" by (simp add: MatchString_non_space perl_space_def)
  then have "gather [] [] [''t'', [], replicate 4096 CHR ''x'']
      = ([''t''], [[], replicate 4096 CHR ''x''])"
    by (intro gather_title_first) (simp_all add: HasPrefix_def)
  moreover have "TrimSpace ''t'' = ''t''" by code_simp
  moreover have "TrimSpace (newline # replicate 4096 CHR ''x'') = replicate 4096 CHR ''x''"
    by (simp add: TrimSpace_newline TrimSpace_id no_leading_space_replicate_x
        no_trailing_space_replicate_x)
  ultimately show ?thesis by (simp add: readTitleAndBody_gather)
qed

lemma reparse_full_last_line:
  "readTitleAndBody (NewReader (''t'' @ [newline, newline] @ replicate 4096 CHR ''x''))
     = (''t'', [], None)"
proof -
  have "lines_of (NewReader (''t'' @ [newline, newline] @ replicate 4096 CHR ''x''))
          = [drop_cr ''t'', []]"
    by (rule lines_of_full_last_line) (simp_all add: defaultBufSize_def)
  moreover have "gather [] [] [''t'', []] = ([''t''], [[]])" by code_simp
  moreover have "TrimSpace ''t'' = ''t''" "TrimSpace [] = []" by code_simp+
  ultimately show ?thesis by (simp add: readTitleAndBody_lines_of drop_cr_def)
qed

lemma no_cr_no_crlf: "carriage_return \<notin> set s \<Longrightarrow> \<not> has_crlf s"
  by (induction s rule: has_crlf.induct) auto

lemma crlf_body_lost:
  "list_all (\<lambda>l. newline \<notin> set l) [''t'', [], [CHR ''x'', carriage_return], ''y''] \<and>
   readTitleAndBody (reader_of_lines [''t'', [], [CHR ''x'', carriage_return], ''y''])
     = (''t'', [CHR ''x'', carriage_return, newline, CHR ''y''], None) \<and>
   list_all (\<lambda>l. \<not> HasPrefix l ''#'')
     (Split (''t'' @ [newline, newline] @ [CHR ''x'', carriage_return, newline, CHR ''y''])
        newline) \<and>
   length (last (Split [CHR ''x'', carriage_return, newline, CHR ''y''] newline))
     < defaultBufSize \<and>
   readTitleAndBody
     (NewReader (''t'' @ [newline, newline] @ [CHR ''x'', carriage_return, newline, CHR ''y'']))
     = (''t'', [CHR ''x'', newline, CHR ''y''], None) \<and>
   [CHR ''x'', newline, CHR ''y''] \<noteq> [CHR ''x'', carriage_return, newline, CHR ''y'']"
  by code_simp

lemma full_buffer_body_lost:
  "list_all (\<lambda>l. newline \<notin> set l) [''t'', [], replicate 4096 CHR ''x''] \<and>
   readTitleAndBody (reader_of_lines [''t'', [], replicate 4096 CHR ''x''])
     = (''t'', replicate 4096 CHR ''x'', None) \<and>
   list_all (\<lambda>l. \<not> HasPrefix l ''#'')
     (Split (''t'' @ [newline, newline] @ replicate 4096 CHR ''x'') newline) \<and>
   \<not> has_crlf (replicate 4096 CHR ''x'') \<and>
   readTitleAndBody (NewReader (''t'' @ [newline, newline] @ replicate 4096 CHR ''x''))
     = (''t'', [], None) \<and>
   [] \<noteq> replicate 4096 CHR ''x''"
proof -
  have "Split (''t'' @ [newline, newline] @ replicate 4096 CHR ''x'') newline
          = [''t'', [], replicate 4096 CHR ''x'']"
    using Split_first_sep [of newline "''t''" "newline # replicate 4096 CHR ''x''"]
      Split_first_sep [of newline "[]" "replicate 4096 CHR ''x''"]
      Split_no_sep [of newline "replicate 4096 CHR ''x''"]
    by simp
  then have nocomment: "list_all (\<lambda>l. \<not> HasPrefix l ''#'')
      (Split (''t'' @ [newline, newline] @ replicate 4096 CHR ''x'') newline)"
    by (simp add: HasPrefix_def)
  have nocrlf: "\<not> has_crlf (replicate 4096 CHR ''x'')"
    by (rule no_cr_no_crlf) simp
  have lines: "list_all (\<lambda>l. newline \<notin> set l) [''t'', [], replicate 4096 CHR ''x'']"
    by simp
  have differ: "[] \<noteq> replicate 4096 CHR ''x''"
    by simp
  show ?thesis
    by (intro conjI lines parse_full_last_line nocomment nocrlf reparse_full_last_line differ)
qed

text \<open>
  C3 as stated fails in two ways. When a body line ends in a carriage return and another
  body line follows, the reader of the second parse takes the carriage return and the
  line feed together as the end of the line, and the body comes back without the
  carriage return. When the last line of the body fills the reader's buffer of 4096
  bytes exactly, \<open>ReadLine\<close> returns it as the beginning of a line and then the end of
  the file, \<open>readln\<close> returns the line together with the error, and the loop of line 142
  leaves without the line: the body comes back empty.
\<close>

theorem readTitleAndBody_reparse_counterexample:
  "(list_all (\<lambda>l. newline \<notin> set l) [''t'', [], [CHR ''x'', carriage_return], ''y''] \<and>
    readTitleAndBody (reader_of_lines [''t'', [], [CHR ''x'', carriage_return], ''y''])
      = (''t'', [CHR ''x'', carriage_return, newline, CHR ''y''], None) \<and>
    list_all (\<lambda>l. \<not> HasPrefix l ''#'')
      (Split (''t'' @ [newline, newline] @ [CHR ''x'', carriage_return, newline, CHR ''y''])
         newline) \<and>
    length (last (Split [CHR ''x'', carriage_return, newline, CHR ''y''] newline))
      < defaultBufSize \<and>
    readTitleAndBody
      (NewReader (''t'' @ [newline, newline] @ [CHR ''x'', carriage_return, newline, CHR ''y'']))
      = (''t'', [CHR ''x'', newline, CHR ''y''], None) \<and>
    [CHR ''x'', newline, CHR ''y''] \<noteq> [CHR ''x'', carriage_return, newline, CHR ''y'']) \<and>
   (list_all (\<lambda>l. newline \<notin> set l) [''t'', [], replicate 4096 CHR ''x''] \<and>
    readTitleAndBody (reader_of_lines [''t'', [], replicate 4096 CHR ''x''])
      = (''t'', replicate 4096 CHR ''x'', None) \<and>
    list_all (\<lambda>l. \<not> HasPrefix l ''#'')
      (Split (''t'' @ [newline, newline] @ replicate 4096 CHR ''x'') newline) \<and>
    \<not> has_crlf (replicate 4096 CHR ''x'') \<and>
    readTitleAndBody (NewReader (''t'' @ [newline, newline] @ replicate 4096 CHR ''x''))
      = (''t'', [], None) \<and>
    [] \<noteq> replicate 4096 CHR ''x'')"
  by (rule conjI [OF crlf_body_lost full_buffer_body_lost])

end
